theory Spec2Isabelle
  imports Complex_Main "HOL-Library.Sublist" "HOL-Library.Multiset"
begin

section \<open>Gait and turning features of the mPower walking test\<close>

text \<open>
  A shallow embedding of \<^verbatim>\<open>src/utils/new_walking_feature.py\<close> and of
  \<^verbatim>\<open>clean_accelerometer_data\<close>, \<^verbatim>\<open>open_filepath\<close> from
  \<^verbatim>\<open>src/utils/query_utils.py\<close>.

  Conventions of the embedding.
  \<^item> A pandas DataFrame is the list of its rows, in row order; a column is the list of one
    field. A numpy array is a list.
  \<^item> Floating-point numbers are real numbers, so rounding and overflow are outside the
    model. The values numpy produces without any rounding, \<^verbatim>\<open>nan\<close> for the mean of an
    empty array and \<^verbatim>\<open>inf\<close>/\<^verbatim>\<open>nan\<close> for a division by zero, are kept in the type
    \<open>npfloat\<close>. A missing cell of a DataFrame (NaN after a join, null in the JSON) is
    \<open>None\<close>.
  \<^item> A Python exception is a value \<open>Inl e\<close> of the sum type \<open>error + 'a\<close>.
  \<^item> What the code takes from outside is a parameter, collected in the record \<open>env\<close>:
    the coefficients scipy's \<^verbatim>\<open>butter\<close> designs, pdkit's
    \<^verbatim>\<open>GaitProcessor.heel_strikes\<close>, and the content of the JSON files. scipy's
    \<^verbatim>\<open>lfilter\<close> is its difference equation.
\<close>

subsection \<open>Errors, numpy floats\<close>

datatype error =
  FileNotFoundError | KeyError | IndexError | ValueError | AttributeError | TypeError | SystemExit

datatype npfloat = Fin real | PInf | NInf | NaN

text \<open>Addition of IEEE values, without rounding.\<close>

fun np_add :: "npfloat \<Rightarrow> npfloat \<Rightarrow> npfloat" where
  "np_add (Fin a) (Fin b) = Fin (a + b)"
| "np_add NaN b = NaN"
| "np_add a NaN = NaN"
| "np_add PInf NInf = NaN"
| "np_add NInf PInf = NaN"
| "np_add PInf b = PInf"
| "np_add a PInf = PInf"
| "np_add NInf b = NInf"
| "np_add a NInf = NInf"

text \<open>\<^verbatim>\<open>n / d\<close> for a Python int \<open>n \<ge> 0\<close> and a numpy float \<open>d\<close>: a zero
  divisor gives \<^verbatim>\<open>inf\<close> or \<^verbatim>\<open>nan\<close> and a warning, never an exception.\<close>

definition np_true_divide :: "nat \<Rightarrow> real \<Rightarrow> npfloat" where
  "np_true_divide n d =
     (if d \<noteq> 0 then Fin (real n / d) else if n = 0 then NaN else PInf)"

text \<open>\<^verbatim>\<open>np.mean\<close> of a one-dimensional array: the sum divided by the number of
  elements; \<^verbatim>\<open>nan\<close> for the empty array.\<close>

definition np_mean :: "npfloat list \<Rightarrow> npfloat" where
  "np_mean a =
     (if a = [] then NaN
      else case foldl np_add (Fin 0) a of
             Fin s \<Rightarrow> Fin (s / real (length a))
           | v \<Rightarrow> v)"

text \<open>\<^verbatim>\<open>Series.mean()\<close>, \<^verbatim>\<open>.min()\<close>, \<^verbatim>\<open>.max()\<close> and \<^verbatim>\<open>.var()\<close>
  (sample variance, one degree of freedom removed) of a column without missing cells. The
  code calls the first three on non-empty columns only, and \<^verbatim>\<open>.var()\<close> on windows of 256
  samples.\<close>

definition pd_mean :: "real list \<Rightarrow> real" where
  "pd_mean col = sum_list col / real (length col)"

fun pd_min :: "real list \<Rightarrow> real" where
  "pd_min [] = 0"
| "pd_min (v # vs) = foldl min v vs"

fun pd_max :: "real list \<Rightarrow> real" where
  "pd_max [] = 0"
| "pd_max (v # vs) = foldl max v vs"

definition pd_var :: "real list \<Rightarrow> real" where
  "pd_var col =
     (let m = pd_mean col
      in sum_list (map (\<lambda>v. (v - m) ^ 2) col) / (real (length col) - 1))"

subsection \<open>numpy and pandas helpers\<close>

text \<open>\<^verbatim>\<open>a[lo:hi]\<close> and \<^verbatim>\<open>.iloc[lo:hi]\<close> for \<open>0 \<le> lo\<close>, \<open>0 \<le> hi\<close>.\<close>

definition slice :: "'a list \<Rightarrow> nat \<Rightarrow> nat \<Rightarrow> 'a list" where
  "slice a lo hi = drop lo (take hi a)"

text \<open>\<^verbatim>\<open>.iloc[i]\<close> for \<open>0 \<le> i\<close>, and \<^verbatim>\<open>a[0]\<close>, \<^verbatim>\<open>a[-1]\<close>: out of range
  raises IndexError.\<close>

definition iloc :: "'a list \<Rightarrow> nat \<Rightarrow> error + 'a" where
  "iloc a i = (if i < length a then Inr (a ! i) else Inl IndexError)"

definition first_item :: "'a list \<Rightarrow> error + 'a" where
  "first_item a = (case a of [] \<Rightarrow> Inl IndexError | v # _ \<Rightarrow> Inr v)"

definition last_item :: "'a list \<Rightarrow> error + 'a" where
  "last_item a = (case a of [] \<Rightarrow> Inl IndexError | _ # _ \<Rightarrow> Inr (last a))"

fun np_diff :: "'a::minus list \<Rightarrow> 'a list" where
  "np_diff (a # b # r) = (b - a) # np_diff (b # r)"
| "np_diff r = []"

text \<open>\<^verbatim>\<open>np.where(c)[0]\<close>: the positions where \<open>c\<close> holds, ascending.\<close>

definition np_where :: "bool list \<Rightarrow> nat list" where
  "np_where c = filter (\<lambda>i. c ! i) [0..<length c]"

text \<open>\<^verbatim>\<open>a.reshape(-1, 2)\<close> of a one-dimensional array: ValueError when the length is
  odd.\<close>

fun reshape2 :: "nat list \<Rightarrow> error + (nat \<times> nat) list" where
  "reshape2 [] = Inr []"
| "reshape2 [a] = Inl ValueError"
| "reshape2 (a # b # r) =
     (case reshape2 r of Inl e \<Rightarrow> Inl e | Inr ps \<Rightarrow> Inr ((a, b) # ps))"

text \<open>\<^verbatim>\<open>np.trapz(y, x)\<close>.\<close>

fun np_trapz :: "real list \<Rightarrow> real list \<Rightarrow> real" where
  "np_trapz (y0 # y1 # ys) (x0 # x1 # xs) =
     (x1 - x0) * (y1 + y0) / 2 + np_trapz (y1 # ys) (x1 # xs)"
| "np_trapz ys xs = 0"

text \<open>\<^verbatim>\<open>sklearn.metrics.auc(x, y)\<close>: at least two points, \<open>x\<close> monotonic (else
  ValueError); the trapezoidal area, negated when \<open>x\<close> decreases.\<close>

definition metrics_auc :: "real list \<Rightarrow> real list \<Rightarrow> error + real" where
  "metrics_auc x y =
     (if length x \<noteq> length y then Inl ValueError
      else if length x < 2 then Inl ValueError
      else let dx = np_diff x
           in if list_ex (\<lambda>d. d < 0) dx
              then (if list_all (\<lambda>d. d \<le> 0) dx then Inr (- np_trapz y x) else Inl ValueError)
              else Inr (np_trapz y x))"

text \<open>\<^verbatim>\<open>itertools.groupby\<close>: maximal blocks of neighbours with the same key.\<close>

fun groupby :: "('a \<Rightarrow> 'k) \<Rightarrow> 'a list \<Rightarrow> ('k \<times> 'a list) list" where
  "groupby key [] = []"
| "groupby key (v # vs) =
     (case groupby key vs of
        [] \<Rightarrow> [(key v, [v])]
      | (k, g) # gs \<Rightarrow> if key v = k then (k, v # g) # gs else (key v, [v]) # (k, g) # gs)"

text \<open>\<^verbatim>\<open>Series.fillna(method = "bfill")\<close>: a missing cell takes the next known value
  below it; \<^verbatim>\<open>.fillna(d)\<close>: every cell still missing becomes \<open>d\<close>.\<close>

fun bfill :: "real option list \<Rightarrow> real option list" where
  "bfill [] = []"
| "bfill (v # vs) =
     (let r = bfill vs
      in (case v of Some a \<Rightarrow> Some a | None \<Rightarrow> (case r of [] \<Rightarrow> None | n # _ \<Rightarrow> n)) # r)"

definition fillna :: "real \<Rightarrow> real option list \<Rightarrow> real list" where
  "fillna d col = map (\<lambda>v. case v of None \<Rightarrow> d | Some a \<Rightarrow> a) col"

subsection \<open>Data model\<close>

text \<open>One object of the JSON array of a recording (current schema); a null axis reading
  is \<open>None\<close>.\<close>

record sample =
  raw_timestamp :: real
  raw_sensorType :: string
  raw_x :: "real option"
  raw_y :: "real option"
  raw_z :: "real option"

text \<open>One row of a cleaned recording (\<^verbatim>\<open>clean_accelerometer_data\<close>): the columns
  \<^verbatim>\<open>td\<close>, \<^verbatim>\<open>timestamp\<close>, \<^verbatim>\<open>sensorType\<close>, \<^verbatim>\<open>x\<close>, \<^verbatim>\<open>y\<close>, \<^verbatim>\<open>z\<close>, \<^verbatim>\<open>AA\<close>.\<close>

record row =
  td :: real
  timestamp :: real
  sensorType :: string
  x_axis :: real
  y_axis :: real
  z_axis :: real
  AA :: real

text \<open>The \<^verbatim>\<open>orientation\<close> argument names one of the numeric signal columns.\<close>

datatype orientation = Orient_x | Orient_y | Orient_z | Orient_AA

fun column :: "orientation \<Rightarrow> row \<Rightarrow> real" where
  "column Orient_x r = x_axis r"
| "column Orient_y r = y_axis r"
| "column Orient_z r = z_axis r"
| "column Orient_AA r = AA r"

text \<open>One row of the frame \<^verbatim>\<open>calculate_rotation\<close> returns (a TurnEvent).\<close>

record turn_event =
  turn_td :: real
  auc :: real
  turn_duration :: real
  aucXt :: real

text \<open>One row of the frame \<^verbatim>\<open>create_overlay_data\<close> returns: the acceleration row and
  the joined columns; \<^verbatim>\<open>auc\<close> is never filled.\<close>

record overlay_row =
  ov_row :: row
  ov_auc :: "real option"
  ov_turn_duration :: real
  ov_aucXt :: real

text \<open>One row of the per-window frame of \<^verbatim>\<open>calculate_number_of_steps_per_window\<close>.\<close>

record window_obs =
  time :: nat
  heel_strikes :: real
  variance :: real

text \<open>The dictionary \<^verbatim>\<open>pipeline\<close> returns, one field per key.\<close>

record feature_record =
  wchunk_mean_no_of_steps_per_secs :: npfloat
  no_wchunk_mean_no_of_steps_per_secs :: npfloat
  rotation_no_of_turns :: nat
  rotation_mean_duration :: npfloat
  rotation_min_duration :: npfloat
  rotation_max_duration :: npfloat

text \<open>The \<^verbatim>\<open>data\<close> argument is a path string or a DataFrame; a result is the string
  handed back or a computed value.\<close>

datatype pipeline_input = Path string | Frame "row list"

datatype 'a outcome = Sentinel string | Computed 'a

text \<open>The environment: scipy's filter design (order and normalised cutoff to the
  coefficients \<open>(b, a)\<close>), pdkit's heel-strike detector (its first argument is the
  \<^verbatim>\<open>duration\<close> of the GaitProcessor; the result is the pair of the lengths of the two
  arrays it returns, \<open>None\<close> when it raises), and the parsed content of the files.\<close>

record env =
  butter :: "nat \<Rightarrow> real \<Rightarrow> real list \<times> real list"
  gp_heel_strikes :: "real \<Rightarrow> real list \<Rightarrow> (nat \<times> nat) option"
  files :: "string \<Rightarrow> sample list option"

subsection \<open>query\_utils.py\<close>

definition open_filepath :: "env \<Rightarrow> string \<Rightarrow> error + sample list" where
  "open_filepath e filepath =
     (case files e filepath of None \<Rightarrow> Inl FileNotFoundError | Some data \<Rightarrow> Inr data)"

definition dropna :: "sample list \<Rightarrow> sample list" where
  "dropna data = filter (\<lambda>s. raw_x s \<noteq> None \<and> raw_y s \<noteq> None \<and> raw_z s \<noteq> None) data"

text \<open>The frame before \<^verbatim>\<open>sort_index\<close>: \<^verbatim>\<open>td\<close> is the time since the first row, and
  is the index as well.\<close>

definition with_td :: "sample list \<Rightarrow> error + row list" where
  "with_td data =
     (case data of
        [] \<Rightarrow> Inl IndexError
      | s0 # _ \<Rightarrow>
          Inr (map (\<lambda>s. \<lparr>td = raw_timestamp s - raw_timestamp s0,
                          timestamp = raw_timestamp s,
                          sensorType = raw_sensorType s,
                          x_axis = the (raw_x s), y_axis = the (raw_y s), z_axis = the (raw_z s),
                          AA = sqrt ((the (raw_x s))\<^sup>2 + (the (raw_y s))\<^sup>2 + (the (raw_z s))\<^sup>2)\<rparr>)
                   data))"

text \<open>\<^verbatim>\<open>all(data.index[:-1] <= data.index[1:])\<close>.\<close>

definition index_is_sorted :: "real list \<Rightarrow> bool" where
  "index_is_sorted ix = list_all (\<lambda>(a, b). a \<le> b) (zip (butlast ix) (tl ix))"

text \<open>\<^verbatim>\<open>sort_index\<close> is the stable insertion sort on the index; pandas leaves the order of
  rows with equal index open.\<close>

definition clean_accelerometer_data :: "sample list \<Rightarrow> error + row list" where
  "clean_accelerometer_data data0 =
     (case with_td (dropna data0) of
        Inl e \<Rightarrow> Inl e
      | Inr data1 \<Rightarrow>
          let data = sort_key td data1
          in if index_is_sorted (map td data) then Inr data else Inl SystemExit)"

subsection \<open>new\_walking\_feature.py: helper functions\<close>

text \<open>\<^verbatim>\<open>scipy.signal.lfilter(b, a, data)\<close> on a one-dimensional array, from rest:
  \<open>a\<^sub>0 y\<^sub>n = b\<^sub>0 x\<^sub>n + b\<^sub>1 x\<^sub>n\<^sub>-\<^sub>1 + \<dots> - a\<^sub>1 y\<^sub>n\<^sub>-\<^sub>1 - \<dots>\<close>. \<open>xp\<close> and \<open>yp\<close> are the
  inputs and outputs so far, the newest first. (\<^verbatim>\<open>butter\<close> returns \<open>a\<^sub>0 = 1\<close>.)\<close>

definition dot :: "real list \<Rightarrow> real list \<Rightarrow> real" where
  "dot u v = sum_list (map (\<lambda>(p, q). p * q) (zip u v))"

fun lfilter_from :: "real list \<Rightarrow> real list \<Rightarrow> real list \<Rightarrow> real list \<Rightarrow> real list \<Rightarrow> real list" where
  "lfilter_from b a xp yp [] = []"
| "lfilter_from b a xp yp (x # xs) =
     (let y = (case a of [] \<Rightarrow> 0 | a0 # ar \<Rightarrow> (dot b (x # xp) - dot ar yp) / a0)
      in y # lfilter_from b a (x # xp) (y # yp) xs)"

definition lfilter :: "real list \<Rightarrow> real list \<Rightarrow> real list \<Rightarrow> real list" where
  "lfilter b a data = lfilter_from b a [] [] data"

text \<open>The function is always called with \<^verbatim>\<open>plot = False\<close>.\<close>

definition butter_lowpass_filter :: "env \<Rightarrow> real list \<Rightarrow> real \<Rightarrow> real \<Rightarrow> nat \<Rightarrow> real list" where
  "butter_lowpass_filter e data sample_rate cutoff order =
     (let nyquist = 0.5 * sample_rate;
          normal_cutoff = cutoff / nyquist;
          (b, a) = butter e order normal_cutoff
      in lfilter b a data)"

text \<open>\<^verbatim>\<open>frame[name] = values\<close>: ValueError unless there is one value per row.\<close>

definition assign_column :: "'a list \<Rightarrow> real list \<Rightarrow> error + real list" where
  "assign_column frame vals = (if length vals = length frame then Inr vals else Inl ValueError)"

definition np_equal0 :: "real list \<Rightarrow> int list" where
  "np_equal0 a = map (\<lambda>v. if v = 0 then 1 else 0) a"

definition zero_runs :: "real list \<Rightarrow> error + (nat \<times> nat) list" where
  "zero_runs array =
     (let iszero = [0] @ np_equal0 array @ [0];
          absdiff = map abs (np_diff iszero)
      in reshape2 (np_where (map (\<lambda>d. d = 1) absdiff)))"

definition detect_zcr :: "real list \<Rightarrow> nat list" where
  "detect_zcr array = np_where (map (\<lambda>d. d \<noteq> 0) (np_diff (map sgn array)))"

text \<open>The frame keeps its labels \<open>0, 1, \<dots>\<close> while rows are dropped; the removal of
  \<^verbatim>\<open>range(i[0], i[1])\<close> is by label.\<close>

definition subset_data_non_zero_runs :: "window_obs list \<Rightarrow> int \<Rightarrow> error + window_obs list" where
  "subset_data_non_zero_runs data zero_runs_cutoff =
     (case zero_runs (map heel_strikes data) of
        Inl e \<Rightarrow> Inl e
      | Inr runs \<Rightarrow>
          let z_runs_threshold =
                filter (\<lambda>v. int (snd v) - int (fst v) \<ge> zero_runs_cutoff) runs;
              labelled = zip [0..<length data] data;
              kept = foldl (\<lambda>d i. filter (\<lambda>(l, r). \<not> (fst i \<le> l \<and> l < snd i)) d)
                       labelled z_runs_threshold
          in Inr (map snd kept))"

subsection \<open>new\_walking\_feature.py: the windowed step counter\<close>

text \<open>The \<^verbatim>\<open>while\<close> loop of \<^verbatim>\<open>calculate_number_of_steps_per_window\<close>: one row per
  window \<^verbatim>\<open>ts.iloc[jPos - 256 : jPos]\<close>, the position advancing by 50. \<open>filtered\<close> is
  the column \<^verbatim>\<open>filtered_<orientation>\<close>. The heel-strike count of a window is 0 when the
  filtered variance is below \<open>0.01\<close> or the detector raises.\<close>

function window_loop :: "env \<Rightarrow> orientation \<Rightarrow> row list \<Rightarrow> real list \<Rightarrow> nat \<Rightarrow> window_obs list" where
  "window_loop e orient ts filtered jPos =
     (if jPos < length ts
      then let jStart = jPos - 256;
               subset = slice ts jStart jPos;
               duration = td (last subset) - td (hd subset);
               var = pd_var (slice filtered jStart jPos);
               strikes = (if var < 1 / 100 then 0
                          else case gp_heel_strikes e duration (map (column orient) subset) of
                                 None \<Rightarrow> 0
                               | Some (n0, n1) \<Rightarrow> n1)
           in \<lparr>time = jPos, heel_strikes = real strikes / (256 / 100), variance = var\<rparr>
              # window_loop e orient ts filtered (jPos + 50)
      else [])"
  by pat_completeness auto
termination
  by (relation "measure (\<lambda>(e, orient, ts, filtered, jPos). length ts - jPos)") auto

declare window_loop.simps [simp del]

text \<open>The end of the function, from the per-window frame on: zero-run filtering with
  cutoff 5, then 0 for an empty frame and the mean rate otherwise.\<close>

definition mean_heel_strikes_per_chunk :: "window_obs list \<Rightarrow> error + real" where
  "mean_heel_strikes_per_chunk ts =
     (case subset_data_non_zero_runs ts 5 of
        Inl err \<Rightarrow> Inl err
      | Inr kept \<Rightarrow>
          let new_data_size = length kept
          in if new_data_size = 0 then Inr 0 else Inr (pd_mean (map heel_strikes kept)))"

text \<open>The function on a DataFrame: filter, windows, and the end above.\<close>

definition steps_per_window_frame :: "env \<Rightarrow> row list \<Rightarrow> orientation \<Rightarrow> error + real" where
  "steps_per_window_frame e ts orient =
     (case assign_column ts (butter_lowpass_filter e (map (column orient) ts) 100 5 4) of
        Inl err \<Rightarrow> Inl err
      | Inr filtered \<Rightarrow>
          mean_heel_strikes_per_chunk (window_loop e orient ts filtered (256 + 1)))"

text \<open>A path string other than the sentinel is opened and cleaned, and then
  \<^verbatim>\<open>data.copy()\<close> is called on the string itself.\<close>

definition calculate_number_of_steps_per_window ::
  "env \<Rightarrow> pipeline_input \<Rightarrow> orientation \<Rightarrow> error + real outcome" where
  "calculate_number_of_steps_per_window e data orient =
     (case data of
        Path s \<Rightarrow>
          if s = ''#ERROR'' then Inr (Sentinel s)
          else (case open_filepath e s of
                  Inl err \<Rightarrow> Inl err
                | Inr raw \<Rightarrow>
                    (case clean_accelerometer_data raw of
                       Inl err \<Rightarrow> Inl err
                     | Inr ts \<Rightarrow> Inl AttributeError))
      | Frame ts \<Rightarrow>
          (case steps_per_window_frame e ts orient of
             Inl err \<Rightarrow> Inl err
           | Inr v \<Rightarrow> Inr (Computed v)))"

subsection \<open>new\_walking\_feature.py: rotation\<close>

text \<open>The \<^verbatim>\<open>for\<close> loop of \<^verbatim>\<open>calculate_rotation\<close> over the zero-crossing indices,
  given the \<^verbatim>\<open>td\<close> column and the filtered rotation column; \<open>start\<close> is the loop's
  variable of that name.\<close>

fun calculate_rotation_loop ::
  "real list \<Rightarrow> real list \<Rightarrow> nat \<Rightarrow> nat list \<Rightarrow> error + turn_event list" where
  "calculate_rotation_loop tds ys start [] = Inr []"
| "calculate_rotation_loop tds ys start (i # zcr_list) =
     (let x = slice tds start (i + 1);
          y = slice ys start (i + 1)
      in case iloc tds (i + 1) of
           Inl err \<Rightarrow> Inl err
         | Inr t1 \<Rightarrow>
             (case iloc tds start of
                Inl err \<Rightarrow> Inl err
              | Inr t0 \<Rightarrow>
                  let duration = t1 - t0
                  in if length y \<ge> 2
                     then (case metrics_auc x y of
                             Inl err \<Rightarrow> Inl err
                           | Inr a \<Rightarrow>
                               (case calculate_rotation_loop tds ys (i + 1) zcr_list of
                                  Inl err \<Rightarrow> Inl err
                                | Inr evs \<Rightarrow>
                                    Inr (\<lparr>turn_td = last x, auc = \<bar>a\<bar>,
                                          turn_duration = duration,
                                          aucXt = \<bar>a\<bar> * duration\<rparr> # evs)))
                     else calculate_rotation_loop tds ys (i + 1) zcr_list))"

definition calculate_rotation :: "env \<Rightarrow> row list \<Rightarrow> orientation \<Rightarrow> error + turn_event list" where
  "calculate_rotation e data orient =
     (case assign_column data (butter_lowpass_filter e (map (column orient) data) 100 2 2) of
        Inl err \<Rightarrow> Inl err
      | Inr filtered \<Rightarrow>
          calculate_rotation_loop (map td data) filtered 0 (detect_zcr filtered))"

subsection \<open>new\_walking\_feature.py: overlay and walking bouts\<close>

text \<open>\<^verbatim>\<open>pd.merge(accel_data, rotation_data, on = "td", how = "left")\<close>: the rows of the
  left frame in order, each once per matching right row and once, with the right columns
  missing, when nothing matches.\<close>

definition pd_merge_left :: "row list \<Rightarrow> turn_event list \<Rightarrow> (row \<times> turn_event option) list" where
  "pd_merge_left accel_data rotation_data =
     concat (map (\<lambda>a. case filter (\<lambda>ev. turn_td ev = td a) rotation_data of
                         [] \<Rightarrow> [(a, None)]
                       | m # ms \<Rightarrow> map (\<lambda>ev. (a, Some ev)) (m # ms))
                 accel_data)"

definition create_overlay_data :: "row list \<Rightarrow> turn_event list \<Rightarrow> overlay_row list" where
  "create_overlay_data accel_data rotation_data =
     (let test = pd_merge_left accel_data rotation_data;
          aucXt_col = fillna 0 (bfill (map (\<lambda>(a, ev). map_option aucXt ev) test));
          turn_duration_col = fillna 0 (bfill (map (\<lambda>(a, ev). map_option turn_duration ev) test))
      in map (\<lambda>((a, ev), (x, d)).
                \<lparr>ov_row = a, ov_auc = map_option auc ev, ov_turn_duration = d, ov_aucXt = x\<rparr>)
           (zip test (zip aucXt_col turn_duration_col)))"

text \<open>\<^verbatim>\<open>groupby(enumerate(seq2), lambda x: x[0] - x[1])\<close>, each group reduced to its
  values.\<close>

definition separate_array_sequence :: "nat list \<Rightarrow> nat list list" where
  "separate_array_sequence array =
     map (\<lambda>(k, g). map snd g)
       (groupby (\<lambda>(i, v). int i - int v) (zip [0..<length array] array))"

subsection \<open>new\_walking\_feature.py: the pipeline\<close>

text \<open>The body of the loop over \<^verbatim>\<open>walking_seqs\<close>: the rows
  \<^verbatim>\<open>data.loc[seqs[0]:seqs[-1]]\<close> (both ends included), the windowed rate and the
  unwindowed rate of the bout. The unwindowed detector runs on the column \<^verbatim>\<open>y\<close>.\<close>

definition bout_rates :: "env \<Rightarrow> overlay_row list \<Rightarrow> orientation \<Rightarrow> nat list \<Rightarrow> error + (real \<times> npfloat)" where
  "bout_rates e data orient seqs =
     (case first_item seqs of
        Inl err \<Rightarrow> Inl err
      | Inr s0 \<Rightarrow>
          (case last_item seqs of
             Inl err \<Rightarrow> Inl err
           | Inr s1 \<Rightarrow>
               let data_seqs = map ov_row (slice data s0 (s1 + 1))
               in case calculate_number_of_steps_per_window e (Frame data_seqs) orient of
                    Inl err \<Rightarrow> Inl err
                  | Inr (Sentinel s) \<Rightarrow> Inl TypeError
                  | Inr (Computed no_of_steps_per_secs_wchunk) \<Rightarrow>
                      (case last_item (map td data_seqs) of
                         Inl err \<Rightarrow> Inl err
                       | Inr t1 \<Rightarrow>
                           (case first_item (map td data_seqs) of
                              Inl err \<Rightarrow> Inl err
                            | Inr t0 \<Rightarrow>
                                let duration = t1 - t0;
                                    no_of_steps_per_secs_no_wchunk =
                                      (case gp_heel_strikes e duration (map y_axis data_seqs) of
                                         None \<Rightarrow> Fin 0
                                       | Some (n0, n1) \<Rightarrow> np_true_divide n0 duration)
                                in Inr (no_of_steps_per_secs_wchunk,
                                        no_of_steps_per_secs_no_wchunk)))))"

fun bouts_loop ::
  "env \<Rightarrow> overlay_row list \<Rightarrow> orientation \<Rightarrow> nat list list \<Rightarrow> error + (real \<times> npfloat) list" where
  "bouts_loop e data orient [] = Inr []"
| "bouts_loop e data orient (seqs # walking_seqs) =
     (case bout_rates e data orient seqs of
        Inl err \<Rightarrow> Inl err
      | Inr r \<Rightarrow>
          (case bouts_loop e data orient walking_seqs of
             Inl err \<Rightarrow> Inl err
           | Inr rs \<Rightarrow> Inr (r # rs)))"

text \<open>The rotation block of the dictionary, from the frame of turn events.\<close>

definition rotation_features :: "turn_event list \<Rightarrow> nat \<times> npfloat \<times> npfloat \<times> npfloat" where
  "rotation_features rotation_ts =
     (let rotation_occurences = filter (\<lambda>ev. aucXt ev > 2) rotation_ts
      in if length rotation_occurences \<noteq> 0
         then (length rotation_occurences,
               Fin (pd_mean (map turn_duration rotation_occurences)),
               Fin (pd_min (map turn_duration rotation_occurences)),
               Fin (pd_max (map turn_duration rotation_occurences)))
         else (0, Fin 0, Fin 0, Fin 0))"

text \<open>\<^verbatim>\<open>pipeline\<close> from the split by sensor kind on.\<close>

definition walking_seqs_of :: "overlay_row list \<Rightarrow> nat list list" where
  "walking_seqs_of data = separate_array_sequence (np_where (map (\<lambda>r. ov_aucXt r < 2) data))"

definition pipeline_frame :: "env \<Rightarrow> row list \<Rightarrow> orientation \<Rightarrow> error + feature_record" where
  "pipeline_frame e data0 orient =
     (let accel_ts = filter (\<lambda>r. sensorType r = ''userAcceleration'') data0;
          rotation_rows = filter (\<lambda>r. sensorType r = ''rotationRate'') data0
      in case calculate_rotation e rotation_rows orient of
           Inl err \<Rightarrow> Inl err
         | Inr rotation_ts \<Rightarrow>
             let data = create_overlay_data accel_ts rotation_ts;
                 walking_seqs = walking_seqs_of data
             in case bouts_loop e data orient walking_seqs of
                  Inl err \<Rightarrow> Inl err
                | Inr rates \<Rightarrow>
                    (case rotation_features rotation_ts of
                       (n, mean_d, min_d, max_d) \<Rightarrow>
                         Inr \<lparr>wchunk_mean_no_of_steps_per_secs = np_mean (map (Fin \<circ> fst) rates),
                              no_wchunk_mean_no_of_steps_per_secs = np_mean (map snd rates),
                              rotation_no_of_turns = n,
                              rotation_mean_duration = mean_d,
                              rotation_min_duration = min_d,
                              rotation_max_duration = max_d\<rparr>))"

definition pipeline :: "env \<Rightarrow> pipeline_input \<Rightarrow> orientation \<Rightarrow> error + feature_record outcome" where
  "pipeline e data orient =
     (case data of
        Path s \<Rightarrow>
          if s = ''#ERROR'' then Inr (Sentinel s)
          else (case open_filepath e s of
                  Inl err \<Rightarrow> Inl err
                | Inr raw \<Rightarrow>
                    (case clean_accelerometer_data raw of
                       Inl err \<Rightarrow> Inl err
                     | Inr cleaned \<Rightarrow>
                         (case pipeline_frame e cleaned orient of
                            Inl err \<Rightarrow> Inl err
                          | Inr fr \<Rightarrow> Inr (Computed fr))))
      | Frame d \<Rightarrow>
          (case pipeline_frame e d orient of
             Inl err \<Rightarrow> Inl err
           | Inr fr \<Rightarrow> Inr (Computed fr)))"

section \<open>Definitions used in the statements and proofs\<close>

subsection \<open>Zero runs\<close>

text \<open>The length of the maximal block of zeros around position \<open>i\<close> of \<open>a\<close> (meaningful
  when \<open>a ! i = 0\<close>): the zeros from \<open>i\<close> on, plus the zeros just before \<open>i\<close>.\<close>

definition zero_run_length :: "real list \<Rightarrow> nat \<Rightarrow> nat" where
  "zero_run_length a i =
     length (takeWhile (\<lambda>u. u = 0) (drop i a)) + length (takeWhile (\<lambda>u. u = 0) (rev (take i a)))"

text \<open>Position \<open>i\<close> lies in a maximal run of zeros of length at least \<open>c\<close>.\<close>

definition in_long_zero_run :: "int \<Rightarrow> real list \<Rightarrow> nat \<Rightarrow> bool" where
  "in_long_zero_run c a i = (i < length a \<and> a ! i = 0 \<and> c \<le> int (zero_run_length a i))"

text \<open>The windows that lie in no maximal run of at least \<open>c\<close> zero-rate windows, in
  their order.\<close>

definition outside_long_zero_runs :: "int \<Rightarrow> window_obs list \<Rightarrow> window_obs list" where
  "outside_long_zero_runs c obs =
     map ((!) obs)
       (filter (\<lambda>i. \<not> in_long_zero_run c (map heel_strikes obs) i) [0..<length obs])"

text \<open>Block by block: a maximal block of zero-rate windows is dropped when it has at least
  \<open>c\<close> windows and kept otherwise.\<close>

function remove_long_zero_runs :: "int \<Rightarrow> window_obs list \<Rightarrow> window_obs list" where
  "remove_long_zero_runs c [] = []"
| "remove_long_zero_runs c (w # ws) =
     (if heel_strikes w \<noteq> 0 then w # remove_long_zero_runs c ws
      else let run = w # takeWhile (\<lambda>v. heel_strikes v = 0) ws;
               rest = dropWhile (\<lambda>v. heel_strikes v = 0) ws
           in (if c \<le> int (length run) then [] else run) @ remove_long_zero_runs c rest)"
  by pat_completeness auto
termination
  by (relation "measure (\<lambda>(c, ws). length ws)") (auto simp: length_dropWhile_le less_Suc_eq_le)

text \<open>The positions where neighbours of a 0/1 list differ, counted from \<open>k\<close>, with \<open>p\<close>
  the element before the list; and the maximal zero blocks of a list, as half-open
  ranges counted from \<open>k\<close>.\<close>

fun edges :: "nat \<Rightarrow> int \<Rightarrow> int list \<Rightarrow> nat list" where
  "edges k p [] = []"
| "edges k p (q # r) = (if \<bar>q - p\<bar> = 1 then [k] else []) @ edges (Suc k) q r"

function runs :: "nat \<Rightarrow> real list \<Rightarrow> (nat \<times> nat) list" where
  "runs k [] = []"
| "runs k (v # vs) =
     (if v \<noteq> 0 then runs (Suc k) vs
      else let m = length (takeWhile (\<lambda>u. u = 0) vs)
           in (k, Suc (k + m)) # runs (Suc (k + m)) (dropWhile (\<lambda>u. u = 0) vs))"
  by pat_completeness auto
termination
  by (relation "measure (\<lambda>(k, vs). length vs)") (auto simp: length_dropWhile_le less_Suc_eq_le)

subsection \<open>Overlay\<close>

text \<open>The nearest known value at or after the head of a column, if there is one.\<close>

definition next_known :: "real option list \<Rightarrow> real option" where
  "next_known col = (case dropWhile (\<lambda>v. v = None) col of [] \<Rightarrow> None | v # _ \<Rightarrow> v)"

subsection \<open>Example data\<close>

text \<open>An environment without files whose filter design is \<open>b = a = [1]\<close> (the filter
  that returns its input) and whose heel-strike detector always finds three strikes; rows
  of the two sensor kinds with the signal on the \<^verbatim>\<open>y\<close> axis; and a raw JSON sample.\<close>

definition example_env :: env where
  "example_env =
     \<lparr>butter = \<lambda>n w. ([1], [1]), gp_heel_strikes = \<lambda>d v. Some (3, 3), files = \<lambda>p. None\<rparr>"

definition accel_row :: "real \<Rightarrow> real \<Rightarrow> row" where
  "accel_row t v =
     \<lparr>td = t, timestamp = t, sensorType = ''userAcceleration'',
      x_axis = 0, y_axis = v, z_axis = 0, AA = \<bar>v\<bar>\<rparr>"

definition rotation_row :: "real \<Rightarrow> real \<Rightarrow> row" where
  "rotation_row t v =
     \<lparr>td = t, timestamp = t, sensorType = ''rotationRate'',
      x_axis = 0, y_axis = v, z_axis = 0, AA = \<bar>v\<bar>\<rparr>"


subsection \<open>Rotation\<close>

text \<open>The intervals \<^verbatim>\<open>calculate_rotation\<close> looks at, as pairs of the first and the last
  position of the sub-series: from the start of the series to the first crossing index,
  then from just after each crossing index to the next one. The turn event of an
  interval: its marker is the time at the last position of the sub-series, its area is
  taken over the sub-series, and its duration runs from the first position of the
  sub-series to the position just after the sub-series.\<close>

definition intervals :: "nat list \<Rightarrow> (nat \<times> nat) list" where
  "intervals zcr_list = zip (0 # map Suc zcr_list) zcr_list"

definition interval_event :: "real list \<Rightarrow> real list \<Rightarrow> nat \<times> nat \<Rightarrow> turn_event" where
  "interval_event tds ys =
     (\<lambda>(s, i). let a = \<bar>np_trapz (slice ys s (Suc i)) (slice tds s (Suc i))\<bar>;
                   d = tds ! Suc i - tds ! s
               in \<lparr>turn_td = tds ! i, auc = a, turn_duration = d, aucXt = a * d\<rparr>)"

text \<open>A finite, non-negative numpy float.\<close>

definition finite_nonneg :: "npfloat \<Rightarrow> bool" where
  "finite_nonneg v = (case v of Fin a \<Rightarrow> 0 \<le> a | _ \<Rightarrow> False)"

text \<open>The duration of the walking bout \<open>seqs\<close> of the overlay \<open>data\<close>, as the loop of
  \<^verbatim>\<open>pipeline\<close> computes it: the last \<^verbatim>\<open>td\<close> minus the first \<^verbatim>\<open>td\<close> of the rows
  \<^verbatim>\<open>data.loc[seqs[0]:seqs[-1]]\<close>.\<close>

definition bout_duration :: "overlay_row list \<Rightarrow> nat list \<Rightarrow> real" where
  "bout_duration data seqs =
     (let data_seqs = map ov_row (slice data (hd seqs) (last seqs + 1))
      in last (map td data_seqs) - hd (map td data_seqs))"

subsection \<open>Walking bouts\<close>

text \<open>The list cut before every element that is not the successor of the element before
  it.\<close>

fun split_runs :: "nat list \<Rightarrow> nat list list" where
  "split_runs [] = []"
| "split_runs (v # vs) =
     (case split_runs vs of
        [] \<Rightarrow> [[v]]
      | g # gs \<Rightarrow> if Suc v = hd g then (v # g) # gs else [v] # g # gs)"

section \<open>Zero-run filtering\<close>

subsection \<open>What \<^verbatim>\<open>zero_runs\<close> returns\<close>

lemma np_where_Cons: "np_where (b # bs) = (if b then [0] else []) @ map Suc (np_where bs)"
proof -
  have "[0..<length (b # bs)] = 0 # map Suc [0..<length bs]"
    by (simp add: upt_conv_Cons map_Suc_upt del: upt_Suc)
  then show ?thesis
    by (simp add: np_where_def filter_map comp_def)
qed

lemma np_where_Nil: "np_where [] = []" by (simp add: np_where_def)

lemma edges_where:
  "map (\<lambda>i. k + i) (np_where (map (\<lambda>d. d = 1) (map abs (np_diff (p # zs))))) = edges k p zs"
proof (induction zs arbitrary: p k)
  case Nil
  then show ?case by (simp add: np_where_Nil)
next
  case (Cons q r)
  from Cons[of "Suc k" q] show ?case
    by (simp add: np_where_Cons comp_def)
qed

lemma edges_ones: "edges k 1 (replicate m 1 @ L) = edges (k + m) 1 L"
  by (induction m arbitrary: k) auto

lemma edges_hd0: "L \<noteq> [] \<Longrightarrow> hd L = 0 \<Longrightarrow> edges j 1 L = j # edges j 0 L"
  by (cases L) auto

lemma iz_takeWhile: "np_equal0 (takeWhile (\<lambda>u. u = 0) vs) = replicate (length (takeWhile (\<lambda>u. u = 0) vs)) 1"
  by (induction vs) (auto simp: np_equal0_def)

lemma iz_dropWhile_hd: "hd (np_equal0 (dropWhile (\<lambda>u. u = 0) vs) @ [0]) = 0"
  by (induction vs) (auto simp: np_equal0_def)

lemma reshape_runs: "reshape2 (edges k 0 (np_equal0 vs @ [0])) = Inr (runs k vs)"
proof (induction k vs rule: runs.induct)
  case (1 k)
  then show ?case by (simp add: np_equal0_def)
next
  case (2 k v vs)
  show ?case
  proof (cases "v = 0")
    case False
    with 2 show ?thesis by (simp add: np_equal0_def)
  next
    case True
    define m where "m = length (takeWhile (\<lambda>u. u = 0) vs)"
    define rest where "rest = dropWhile (\<lambda>u. u = 0) vs"
    have vs: "vs = takeWhile (\<lambda>u. u = 0) vs @ rest" by (simp add: rest_def)
    have iz: "np_equal0 vs = replicate m 1 @ np_equal0 rest"
      by (subst vs) (simp add: np_equal0_def m_def flip: iz_takeWhile[unfolded np_equal0_def])
    have IH: "reshape2 (edges (Suc (k + m)) 0 (np_equal0 rest @ [0])) = Inr (runs (Suc (k + m)) rest)"
      using 2(2)[OF _ m_def] True by (simp add: rest_def m_def)
    have "np_equal0 (v # vs) = 1 # replicate m 1 @ np_equal0 rest"
      using True iz by (simp add: np_equal0_def)
    then have "edges k 0 (np_equal0 (v # vs) @ [0]) = k # edges (Suc k + m) 1 (np_equal0 rest @ [0])"
      by (simp add: edges_ones)
    also have "\<dots> = k # Suc (k + m) # edges (Suc (k + m)) 0 (np_equal0 rest @ [0])"
      using iz_dropWhile_hd[of vs] by (simp add: edges_hd0 rest_def)
    finally show ?thesis using IH True by (simp add: m_def rest_def Let_def)
  qed
qed

lemma zero_runs_eq: "zero_runs a = Inr (runs 0 a)"
  using edges_where[of 0 0 "np_equal0 a @ [0]"] reshape_runs[of 0 a]
  by (simp add: zero_runs_def Let_def comp_def)


lemma foldl_filter_runs:
  "foldl (\<lambda>d i. filter (\<lambda>(l, r). \<not> (fst i \<le> l \<and> l < snd i)) d) d0 rs
   = filter (\<lambda>(l, r). \<forall>i\<in>set rs. \<not> (fst i \<le> l \<and> l < snd i)) d0"
proof (induction rs arbitrary: d0)
  case Nil
  then show ?case by simp
next
  case (Cons a rs)
  show ?case
    unfolding foldl_Cons Cons.IH filter_filter
    by (rule filter_cong) auto
qed

lemma runs_lower: "(s, e) \<in> set (runs k vs) \<Longrightarrow> k \<le> s \<and> s < e"
proof (induction k vs rule: runs.induct)
  case (1 k)
  then show ?case by simp
next
  case (2 k v vs)
  then show ?case
    by (fastforce simp: Let_def split: if_splits)
qed

lemma runs_map_zero:
  "heel_strikes w = 0 \<Longrightarrow>
   runs k (map heel_strikes (w # ws)) =
     (k, Suc (k + length (takeWhile (\<lambda>v. heel_strikes v = 0) ws))) #
       runs (Suc (k + length (takeWhile (\<lambda>v. heel_strikes v = 0) ws))) (map heel_strikes (dropWhile (\<lambda>v. heel_strikes v = 0) ws))"
  by (simp add: takeWhile_map dropWhile_map comp_def Let_def)

lemma filter_all: "(\<And>x. x \<in> set xs \<Longrightarrow> P x) \<Longrightarrow> filter P xs = xs"
  by (induction xs) auto

lemma filter_none: "(\<And>x. x \<in> set xs \<Longrightarrow> \<not> P x) \<Longrightarrow> filter P xs = []"
  by (induction xs) auto

lemma zip_upt_append:
  "length xs = m \<Longrightarrow> zip [k..<k + m + n] (xs @ ys) = zip [k..<k + m] xs @ zip [k + m..<k + m + n] ys"
proof -
  assume "length xs = m"
  have "[k..<k + m + n] = [k..<k + m] @ [k + m..<k + m + n]"
    by (metis le_add1 upt_add_eq_append)
  with \<open>length xs = m\<close> show ?thesis by simp
qed

lemma kept_eq_remove:
  "map snd (filter (\<lambda>(l, r). \<forall>i\<in>set (filter (\<lambda>v. int (snd v) - int (fst v) \<ge> c) (runs k (map heel_strikes ws))).
                        \<not> (fst i \<le> l \<and> l < snd i))
                   (zip [k..<k + length ws] ws))
   = remove_long_zero_runs c ws"
proof (induction c ws arbitrary: k rule: remove_long_zero_runs.induct)
  case (1 c)
  then show ?case by simp
next
  case (2 c w ws)
  let ?long = "\<lambda>v. int (snd v) - int (fst v) \<ge> c"
  show ?case
  proof (cases "heel_strikes w = 0")
    case False
    have zipc: "zip [k..<k + length (w # ws)] (w # ws) = (k, w) # zip [Suc k..<Suc k + length ws] ws"
      by (simp add: upt_conv_Cons del: upt_Suc)
    have rn: "runs k (map heel_strikes (w # ws)) = runs (Suc k) (map heel_strikes ws)"
      using False by simp
    have rm: "remove_long_zero_runs c (w # ws) = w # remove_long_zero_runs c ws"
      using False by simp
    have nk: "\<forall>i\<in>set (filter ?long (runs (Suc k) (map heel_strikes ws))). \<not> (fst i \<le> k \<and> k < snd i)"
      using runs_lower[of _ _ "Suc k" "map heel_strikes ws"] by fastforce
    show ?thesis
      unfolding zipc rn rm using nk 2(1)[OF False, of "Suc k"] by simp
  next
    case True
    define run where "run = w # takeWhile (\<lambda>v. heel_strikes v = 0) ws"
    define rest where "rest = dropWhile (\<lambda>v. heel_strikes v = 0) ws"
    define m where "m = length run"
    have ws: "w # ws = run @ rest" by (simp add: run_def rest_def)
    have len: "length (w # ws) = m + length rest"
      by (subst ws) (simp add: m_def)
    have rn: "runs k (map heel_strikes (w # ws)) = (k, k + m) # runs (k + m) (map heel_strikes rest)"
      using runs_map_zero[OF True, of k ws] by (simp add: m_def run_def rest_def)
    let ?RS = "filter ?long (runs k (map heel_strikes (w # ws)))"
    let ?RS' = "filter ?long (runs (k + m) (map heel_strikes rest))"
    let ?P = "\<lambda>(l, r::window_obs). \<forall>i\<in>set ?RS. \<not> (fst i \<le> l \<and> l < snd i)"
    let ?P' = "\<lambda>(l, r::window_obs). \<forall>i\<in>set ?RS'. \<not> (fst i \<le> l \<and> l < snd i)"
    have zipsplit: "zip [k..<k + length (w # ws)] (w # ws)
                    = zip [k..<k + m] run @ zip [k + m..<k + m + length rest] rest"
      unfolding len ws using zip_upt_append[of run m k "length rest" rest]
      by (simp add: m_def add.assoc)
    have later: "(s, e) \<in> set ?RS' \<Longrightarrow> k + m \<le> s" for s e
      using runs_lower[of s e "k + m" "map heel_strikes rest"] by simp
    have first: "filter ?P (zip [k..<k + m] run) = (if c \<le> int m then [] else zip [k..<k + m] run)"
    proof (cases "c \<le> int m")
      case True
      have "\<not> ?P x" if "x \<in> set (zip [k..<k + m] run)" for x
      proof -
        obtain l r where x: "x = (l, r)" by (cases x)
        with that have "k \<le> l \<and> l < k + m" by (auto dest: set_zip_leftD)
        moreover have "(k, k + m) \<in> set ?RS" unfolding rn using True by simp
        ultimately show ?thesis unfolding x by force
      qed
      then show ?thesis using True by (simp add: filter_none)
    next
      case False
      have "?P x" if "x \<in> set (zip [k..<k + m] run)" for x
      proof -
        obtain l r where x: "x = (l, r)" by (cases x)
        with that have "k \<le> l \<and> l < k + m" by (auto dest: set_zip_leftD)
        moreover have "set ?RS = set ?RS'" unfolding rn using False by simp
        ultimately show ?thesis unfolding x using later by fastforce
      qed
      then show ?thesis using False by (simp add: filter_all)
    qed
    have second: "filter ?P (zip [k + m..<k + m + length rest] rest)
                  = filter ?P' (zip [k + m..<k + m + length rest] rest)"
    proof (rule filter_cong[OF refl])
      fix x assume xin: "x \<in> set (zip [k + m..<k + m + length rest] rest)"
      obtain l r where x: "x = (l, r)" by (cases x)
      with xin have "k + m \<le> l" by (auto dest: set_zip_leftD)
      then show "?P x = ?P' x" unfolding x rn by auto
    qed
    have IH: "map snd (filter ?P' (zip [k + m..<k + m + length rest] rest)) = remove_long_zero_runs c rest"
      using 2(2)[OF _ refl refl, of "k + m"] True by (simp add: rest_def)
    have "map snd (filter ?P (zip [k..<k + length (w # ws)] (w # ws)))
          = (if c \<le> int m then [] else run) @ remove_long_zero_runs c rest"
      unfolding zipsplit filter_append map_append first second IH
      by (simp add: m_def)
    then show ?thesis using True by (simp add: run_def rest_def m_def Let_def)
  qed
qed

lemma subset_eq_remove:
  "subset_data_non_zero_runs data c = Inr (remove_long_zero_runs c data)"
  by (simp only: subset_data_non_zero_runs_def zero_runs_eq sum.case Let_def foldl_filter_runs
      kept_eq_remove[of c 0 data, unfolded add_0])

subsection \<open>Removal block by block and position by position\<close>

lemma takeWhile_snoc_stop: "\<not> P x \<Longrightarrow> takeWhile P (xs @ [x]) = takeWhile P xs"
  by (induction xs) auto

lemma in_long_Cons_nz:
  assumes "v \<noteq> 0"
  shows "in_long_zero_run c (v # vs) (Suc j) = in_long_zero_run c vs j"
  using assms by (simp add: in_long_zero_run_def zero_run_length_def takeWhile_snoc_stop)

lemma in_long_0_nz: "v \<noteq> 0 \<Longrightarrow> \<not> in_long_zero_run c (v # vs) 0"
  by (simp add: in_long_zero_run_def)

lemma upt_0_Suc_map: "[0..<Suc n] = 0 # map Suc [0..<n]"
  by (simp add: upt_conv_Cons map_Suc_upt del: upt_Suc)

lemma upt_0_add_map: "[0..<m + n] = [0..<m] @ map (\<lambda>j. m + j) [0..<n]"
proof -
  have "[0..<m + n] = [0..<m] @ [m..<m + n]" by (rule upt_add_eq_append) simp
  moreover have "map (\<lambda>j. m + j) [0..<n] = [m..<m + n]"
    using map_add_upt[of m n] by (simp add: add.commute)
  ultimately show ?thesis by simp
qed

lemma takeWhile_all: "(\<forall>x\<in>set xs. P x) \<Longrightarrow> takeWhile P xs = xs"
  by (induction xs) auto

lemma takeWhile_stop_hd: "ys = [] \<or> \<not> P (hd ys) \<Longrightarrow> takeWhile P ys = []"
  by (cases ys) auto

lemma takeWhile_all_then:
  "(\<forall>x\<in>set xs. P x) \<Longrightarrow> ys = [] \<or> \<not> P (hd ys) \<Longrightarrow> takeWhile P (xs @ ys) = xs"
  by (induction xs) (simp_all add: takeWhile_stop_hd)

lemma in_long_block_first:
  assumes z: "\<forall>u\<in>set run. u = 0" and r: "rest = [] \<or> hd rest \<noteq> 0" and i: "i < length run"
  shows "in_long_zero_run c (run @ rest) i = (c \<le> int (length run))"
proof -
  have dz: "\<forall>u\<in>set (drop i run). u = 0" using z by (auto dest: in_set_dropD)
  have tz: "\<forall>u\<in>set (rev (take i run)). u = 0" using z by (auto dest: in_set_takeD)
  have a: "takeWhile (\<lambda>u. u = 0) (drop i (run @ rest)) = drop i run"
    using i takeWhile_all_then[OF dz r] by simp
  have b: "takeWhile (\<lambda>u. u = 0) (rev (take i (run @ rest))) = rev (take i run)"
    using i takeWhile_all[OF tz] by simp
  have v: "(run @ rest) ! i = 0" using i z by (simp add: nth_append)
  have "zero_run_length (run @ rest) i = length run"
    unfolding zero_run_length_def a b using i by simp
  then show ?thesis using i v by (simp add: in_long_zero_run_def)
qed

lemma in_long_block_rest:
  assumes z: "\<forall>u\<in>set run. u = 0" and r: "rest = [] \<or> hd rest \<noteq> 0"
  shows "in_long_zero_run c (run @ rest) (length run + j) = in_long_zero_run c rest j"
proof (cases "j < length rest")
  case False
  then show ?thesis by (simp add: in_long_zero_run_def)
next
  case True
  then have ne: "rest \<noteq> []" by auto
  with r have h: "hd rest \<noteq> 0" by simp
  have n: "(run @ rest) ! (length run + j) = rest ! j" by simp
  show ?thesis
  proof (cases j)
    case 0
    have "rest ! j \<noteq> 0" using h ne 0 by (simp add: hd_conv_nth)
    then show ?thesis unfolding in_long_zero_run_def n by simp
  next
    case (Suc j')
    have d: "drop (length run + j) (run @ rest) = drop j rest" by simp
    have t: "rev (take (length run + j) (run @ rest)) = rev (take j rest) @ rev run" by simp
    have "hd rest \<in> set (rev (take j rest))" using ne Suc by (cases rest) auto
    then have tw: "takeWhile (\<lambda>u. u = 0) (rev (take j rest) @ rev run)
                 = takeWhile (\<lambda>u. u = 0) (rev (take j rest))"
      using h by (intro takeWhile_append1[where x = "hd rest"]) auto
    have zl: "zero_run_length (run @ rest) (length run + j) = zero_run_length rest j"
      unfolding zero_run_length_def d t tw by (rule refl)
    show ?thesis unfolding in_long_zero_run_def n zl using True by simp
  qed
qed


lemma dropWhile_hd_stop: "dropWhile P xs = [] \<or> \<not> P (hd (dropWhile P xs))"
  by (induction xs) auto

lemma remove_long_index:
  "remove_long_zero_runs c ws =
     map ((!) ws) (filter (\<lambda>i. \<not> in_long_zero_run c (map heel_strikes ws) i) [0..<length ws])"
proof (induction c ws rule: remove_long_zero_runs.induct)
  case (1 c)
  then show ?case by simp
next
  case (2 c w ws)
  let ?hs = "map heel_strikes"
  show ?case
  proof (cases "heel_strikes w = 0")
    case False
    have keep0: "\<not> in_long_zero_run c (?hs (w # ws)) 0"
      using False by (simp add: in_long_0_nz)
    have shift: "(\<lambda>i. \<not> in_long_zero_run c (?hs (w # ws)) i) \<circ> Suc
                 = (\<lambda>i. \<not> in_long_zero_run c (?hs ws) i)"
      using False by (auto simp: fun_eq_iff in_long_Cons_nz)
    have "map ((!) (w # ws)) (filter (\<lambda>i. \<not> in_long_zero_run c (?hs (w # ws)) i) [0..<length (w # ws)])
          = w # map ((!) ws) (filter (\<lambda>i. \<not> in_long_zero_run c (?hs ws) i) [0..<length ws])"
      unfolding length_Cons upt_0_Suc_map filter.simps filter_map shift
      using keep0 by (simp add: comp_def)
    then show ?thesis using False 2(1) by simp
  next
    case True
    define run where "run = w # takeWhile (\<lambda>v. heel_strikes v = 0) ws"
    define rest where "rest = dropWhile (\<lambda>v. heel_strikes v = 0) ws"
    define m where "m = length run"
    have ws: "w # ws = run @ rest" by (simp add: run_def rest_def)
    have z: "\<forall>u\<in>set (?hs run). u = 0"
      using True by (auto simp: run_def dest: set_takeWhileD)
    have r: "?hs rest = [] \<or> hd (?hs rest) \<noteq> 0"
    proof (cases "rest = []")
      case True
      then show ?thesis by simp
    next
      case False
      then have "heel_strikes (hd rest) \<noteq> 0"
        using dropWhile_hd_stop[of "\<lambda>v. heel_strikes v = 0" ws] unfolding rest_def by blast
      then show ?thesis using False by (simp add: hd_map)
    qed
    have lm: "length (?hs run) = m" by (simp add: m_def)
    let ?P = "\<lambda>i. \<not> in_long_zero_run c (?hs run @ ?hs rest) i"
    have first: "filter ?P [0..<m] = (if c \<le> int m then [] else [0..<m])"
    proof -
      have "?P i = (\<not> c \<le> int m)" if "i \<in> set [0..<m]" for i
        using in_long_block_first[OF z r, of i c] that lm by simp
      then show ?thesis
        by (cases "c \<le> int m") (simp_all add: filter_empty_conv filter_id_conv del: upt_Suc)
    qed
    have second: "?P \<circ> (\<lambda>j. m + j) = (\<lambda>j. \<not> in_long_zero_run c (?hs rest) j)"
      using in_long_block_rest[OF z r, of c] lm by (simp add: fun_eq_iff)
    have "map ((!) (run @ rest)) [0..<m] = map ((!) run) [0..<m]"
      by (rule map_cong[OF refl]) (simp add: m_def nth_append)
    then have nth1: "map ((!) (run @ rest)) [0..<m] = run"
      by (simp add: m_def map_nth)
    have nth2: "map ((!) (run @ rest)) (map (\<lambda>j. m + j) L) = map ((!) rest) L" for L
      by (simp add: m_def comp_def)
    have IH: "remove_long_zero_runs c rest
              = map ((!) rest) (filter (\<lambda>i. \<not> in_long_zero_run c (?hs rest) i) [0..<length rest])"
      using 2(2)[OF _ refl refl] True by (simp add: rest_def)
    have "map ((!) (run @ rest)) (filter ?P [0..<m + length rest])
          = (if c \<le> int m then [] else run) @ remove_long_zero_runs c rest"
      unfolding upt_0_add_map filter_append map_append first filter_map second nth2 IH
      using nth1 by simp
    moreover have "length (w # ws) = m + length rest"
      by (subst ws) (simp add: m_def)
    moreover have "remove_long_zero_runs c (w # ws)
                   = (if c \<le> int m then [] else run) @ remove_long_zero_runs c rest"
      using True by (simp add: run_def rest_def m_def Let_def)
    ultimately show ?thesis
      by (simp only: ws map_append)
  qed
qed

lemma subset_eq_outside:
  "subset_data_non_zero_runs obs c = Inr (outside_long_zero_runs c obs)"
  by (simp add: subset_eq_remove remove_long_index outside_long_zero_runs_def)

lemma subseq_remove: "subseq (remove_long_zero_runs c ws) ws"
proof (induction c ws rule: remove_long_zero_runs.induct)
  case (1 c)
  then show ?case by simp
next
  case (2 c w ws)
  show ?case
  proof (cases "heel_strikes w = 0")
    case False
    with 2 show ?thesis by simp
  next
    case True
    let ?run = "w # takeWhile (\<lambda>v. heel_strikes v = 0) ws"
    let ?rest = "dropWhile (\<lambda>v. heel_strikes v = 0) ws"
    have a: "subseq (if c \<le> int (length ?run) then [] else ?run) ?run" by simp
    have b: "subseq (remove_long_zero_runs c ?rest) ?rest"
      using 2(2)[OF _ refl refl] True by simp
    have "subseq ((if c \<le> int (length ?run) then [] else ?run) @ remove_long_zero_runs c ?rest)
            (?run @ ?rest)"
      using a b by (rule list_emb_append_mono)
    then show ?thesis using True by (simp add: Let_def)
  qed
qed

lemma nonzero_remove:
  "filter (\<lambda>w. heel_strikes w \<noteq> 0) (remove_long_zero_runs c ws)
   = filter (\<lambda>w. heel_strikes w \<noteq> 0) ws"
proof (induction c ws rule: remove_long_zero_runs.induct)
  case (1 c)
  then show ?case by simp
next
  case (2 c w ws)
  show ?case
  proof (cases "heel_strikes w = 0")
    case False
    with 2 show ?thesis by simp
  next
    case True
    let ?Z = "\<lambda>v. heel_strikes v = 0"
    let ?N = "\<lambda>w. heel_strikes w \<noteq> 0"
    have tz: "filter ?N (takeWhile ?Z ws) = []"
      by (auto simp: filter_empty_conv dest: set_takeWhileD)
    have "filter ?N ws = filter ?N (takeWhile ?Z ws @ dropWhile ?Z ws)" by simp
    also have "\<dots> = filter ?N (dropWhile ?Z ws)" unfolding filter_append tz by simp
    finally have split: "filter ?N ws = filter ?N (dropWhile ?Z ws)" .
    have "filter ?N (remove_long_zero_runs c (dropWhile ?Z ws)) = filter ?N (dropWhile ?Z ws)"
      using 2(2)[OF _ refl refl] True by simp
    then show ?thesis using True tz split by (simp add: Let_def)
  qed
qed

subsection \<open>The claims on zero-run filtering\<close>

text \<open>
  C6. For every sequence of per-window rows, zero-run filtering with cutoff 5 keeps
  exactly the windows that lie in no maximal run of at least 5 consecutive zero-rate
  windows, in their order: a run of 5 or more zero-rate windows goes as a whole, shorter
  zero runs and all windows with a nonzero rate stay. The bout's windowed estimate is 0
  when nothing is left, and the arithmetic mean of the remaining rates otherwise.
\<close>

theorem zero_run_filtering:
  "subset_data_non_zero_runs obs 5 = Inr (outside_long_zero_runs 5 obs) \<and>
   mean_heel_strikes_per_chunk obs =
     Inr (if outside_long_zero_runs 5 obs = [] then 0
          else sum_list (map heel_strikes (outside_long_zero_runs 5 obs))
               / real (length (outside_long_zero_runs 5 obs)))"
  by (simp add: mean_heel_strikes_per_chunk_def subset_eq_outside pd_mean_def Let_def)

text \<open>Rates \<open>0,0,0,0,0,1,0,0,2\<close>: the run of five zeros goes, the run of two stays, and
  the estimate is \<open>(1 + 0 + 0 + 2) / 4\<close>.\<close>

theorem zero_run_filtering_witness:
  "outside_long_zero_runs 5
     (map (\<lambda>r. \<lparr>time = 0, heel_strikes = r, variance = 1\<rparr>) [0, 0, 0, 0, 0, 1, 0, 0, 2])
   = map (\<lambda>r. \<lparr>time = 0, heel_strikes = r, variance = 1\<rparr>) [1, 0, 0, 2] \<and>
   mean_heel_strikes_per_chunk
     (map (\<lambda>r. \<lparr>time = 0, heel_strikes = r, variance = 1\<rparr>) [0, 0, 0, 0, 0, 1, 0, 0, 2])
   = Inr (3 / 4)"
proof -
  let ?obs = "map (\<lambda>r. \<lparr>time = 0, heel_strikes = r, variance = 1\<rparr>) [0, 0, 0, 0, 0, 1, 0, 0, 2::real]"
  have k: "outside_long_zero_runs 5 ?obs
           = map (\<lambda>r. \<lparr>time = 0, heel_strikes = r, variance = 1\<rparr>) [1, 0, 0, 2]"
    by (simp add: outside_long_zero_runs_def in_long_zero_run_def zero_run_length_def upt_rec)
  show ?thesis
    using zero_run_filtering[of ?obs] unfolding k by simp
qed

text \<open>
  C10. For every frame of per-window rows and every cutoff,
  \<^verbatim>\<open>subset_data_non_zero_runs\<close> returns a subsequence of its input (the surviving rows
  keep their relative order) that holds every row with a nonzero heel-strike rate: the
  rows it deletes all have rate 0.
\<close>

theorem subset_only_deletes_zero_rows:
  "\<exists>out. subset_data_non_zero_runs data c = Inr out \<and> subseq out data \<and>
         filter (\<lambda>w. heel_strikes w \<noteq> 0) out = filter (\<lambda>w. heel_strikes w \<noteq> 0) data"
  by (simp add: subset_eq_remove subseq_remove nonzero_remove)

section \<open>The windowed step counter on short bouts\<close>

lemma length_lfilter_from: "length (lfilter_from b a xp yp xs) = length xs"
  by (induction xs arbitrary: xp yp) (simp_all add: Let_def)

lemma length_butter_lowpass_filter:
  "length (butter_lowpass_filter e data sample_rate cutoff order) = length data"
  by (simp add: butter_lowpass_filter_def lfilter_def length_lfilter_from Let_def split: prod.split)

lemma window_loop_short: "length ts \<le> jPos \<Longrightarrow> window_loop e orient ts filtered jPos = []"
  by (subst window_loop.simps) simp

lemma mean_heel_strikes_per_chunk_Nil: "mean_heel_strikes_per_chunk [] = Inr 0"
  by (simp add: mean_heel_strikes_per_chunk_def subset_eq_remove)

lemma steps_short:
  assumes "length ts < 256"
  shows "calculate_number_of_steps_per_window e (Frame ts) orient = Inr (Computed 0)"
proof -
  have w: "window_loop e orient ts f (256 + 1) = []" for f
    using assms by (intro window_loop_short) simp
  show ?thesis
    by (simp only: w mean_heel_strikes_per_chunk_Nil calculate_number_of_steps_per_window_def
        steps_per_window_frame_def assign_column_def length_butter_lowpass_filter length_map
        if_True sum.case pipeline_input.case simp_thms)
qed

text \<open>
  C9. For every bout with fewer than 256 samples the loop of the windowed estimator
  produces no window, and the function returns the number 0: no exception and no NaN.
\<close>

theorem short_bout:
  assumes "length ts < 256"
  shows "window_loop e orient ts (butter_lowpass_filter e (map (column orient) ts) 100 5 4) (256 + 1) = [] \<and>
         calculate_number_of_steps_per_window e (Frame ts) orient = Inr (Computed 0)"
  using assms steps_short[OF assms] by (simp add: window_loop_short)

theorem short_bout_witness:
  "length [\<lparr>td = 0, timestamp = 10, sensorType = ''userAcceleration'',
            x_axis = 0, y_axis = 1, z_axis = 0, AA = 1\<rparr>,
           \<lparr>td = 1, timestamp = 11, sensorType = ''userAcceleration'',
            x_axis = 0, y_axis = 2, z_axis = 0, AA = 2\<rparr>] < 256 \<and>
   calculate_number_of_steps_per_window
     \<lparr>butter = \<lambda>n w. ([1], [1]), gp_heel_strikes = \<lambda>d v. Some (3, 3), files = \<lambda>p. None\<rparr>
     (Frame [\<lparr>td = 0, timestamp = 10, sensorType = ''userAcceleration'',
              x_axis = 0, y_axis = 1, z_axis = 0, AA = 1\<rparr>,
             \<lparr>td = 1, timestamp = 11, sensorType = ''userAcceleration'',
              x_axis = 0, y_axis = 2, z_axis = 0, AA = 2\<rparr>])
     Orient_y = Inr (Computed 0)"
  using short_bout[of "[\<lparr>td = 0, timestamp = 10, sensorType = ''userAcceleration'',
            x_axis = 0, y_axis = 1, z_axis = 0, AA = 1\<rparr>,
           \<lparr>td = 1, timestamp = 11, sensorType = ''userAcceleration'',
            x_axis = 0, y_axis = 2, z_axis = 0, AA = 2\<rparr>]"
           "\<lparr>butter = \<lambda>n w. ([1], [1]), gp_heel_strikes = \<lambda>d v. Some (3, 3), files = \<lambda>p. None\<rparr>"
           Orient_y]
  by simp

section \<open>The overlay of acceleration and turn events\<close>

lemma length_bfill: "length (bfill col) = length col"
  by (induction col) (simp_all add: Let_def)

lemma hd_bfill: "(case bfill col of [] \<Rightarrow> None | n # _ \<Rightarrow> n) = next_known col"
  by (induction col) (auto simp: next_known_def Let_def split: option.splits list.splits)

lemma bfill_nth: "i < length col \<Longrightarrow> bfill col ! i = next_known (drop i col)"
proof (induction col arbitrary: i)
  case Nil
  then show ?case by simp
next
  case (Cons v col)
  show ?case
  proof (cases i)
    case 0
    then show ?thesis
      using hd_bfill[of col] by (cases v) (simp_all add: Let_def next_known_def)
  next
    case (Suc j)
    then show ?thesis using Cons by (simp add: Let_def)
  qed
qed

lemma fillna_bfill_nth:
  "i < length col \<Longrightarrow>
   fillna d (bfill col) ! i = (case next_known (drop i col) of None \<Rightarrow> d | Some a \<Rightarrow> a)"
  by (simp add: fillna_def length_bfill bfill_nth)

lemma length_create_overlay_data:
  "length (create_overlay_data accel_data rotation_data) = length (pd_merge_left accel_data rotation_data)"
  by (simp add: create_overlay_data_def Let_def fillna_def length_bfill)

text \<open>
  C3. On the frame that the left join of the acceleration rows with the turn events on
  \<^verbatim>\<open>td\<close> gives, every cell of \<^verbatim>\<open>aucXt\<close> and of \<^verbatim>\<open>turn_duration\<close> holds the
  nearest known value at or below its row when there is one, and 0 when there is none
  (the cells still missing after the back-fill are those below the last known value): the
  overlay has one row per row of the join and no missing cell in these two columns.
\<close>

theorem overlay_fill:
  assumes "i < length (pd_merge_left accel_data rotation_data)"
  shows "length (create_overlay_data accel_data rotation_data)
           = length (pd_merge_left accel_data rotation_data) \<and>
         ov_aucXt (create_overlay_data accel_data rotation_data ! i)
           = (case next_known (drop i (map (\<lambda>(a, ev). map_option aucXt ev)
                                         (pd_merge_left accel_data rotation_data))) of
                None \<Rightarrow> 0 | Some v \<Rightarrow> v) \<and>
         ov_turn_duration (create_overlay_data accel_data rotation_data ! i)
           = (case next_known (drop i (map (\<lambda>(a, ev). map_option turn_duration ev)
                                         (pd_merge_left accel_data rotation_data))) of
                None \<Rightarrow> 0 | Some v \<Rightarrow> v)"
proof -
  let ?m = "pd_merge_left accel_data rotation_data"
  let ?A = "map (\<lambda>(a, ev). map_option aucXt ev) ?m"
  let ?T = "map (\<lambda>(a, ev). map_option turn_duration ev) ?m"
  have a: "fillna 0 (bfill ?A) ! i = (case next_known (drop i ?A) of None \<Rightarrow> 0 | Some v \<Rightarrow> v)"
    using assms by (intro fillna_bfill_nth) simp
  have t: "fillna 0 (bfill ?T) ! i = (case next_known (drop i ?T) of None \<Rightarrow> 0 | Some v \<Rightarrow> v)"
    using assms by (intro fillna_bfill_nth) simp
  have la: "length (fillna 0 (bfill ?A)) = length ?m" by (simp add: fillna_def length_bfill)
  have lt: "length (fillna 0 (bfill ?T)) = length ?m" by (simp add: fillna_def length_bfill)
  have "create_overlay_data accel_data rotation_data ! i
        = \<lparr>ov_row = fst (?m ! i), ov_auc = map_option auc (snd (?m ! i)),
           ov_turn_duration = fillna 0 (bfill ?T) ! i, ov_aucXt = fillna 0 (bfill ?A) ! i\<rparr>"
    using assms la lt by (simp add: create_overlay_data_def Let_def case_prod_unfold)
  then show ?thesis using a t by (simp add: length_create_overlay_data)
qed

theorem overlay_fill_witness:
  "0 < length (pd_merge_left [accel_row 0 1, accel_row 1 1, accel_row 2 1, accel_row 3 1]
                 [\<lparr>turn_td = 1, auc = 5 / 2, turn_duration = 2, aucXt = 5\<rparr>]) \<and>
   map ov_aucXt (create_overlay_data [accel_row 0 1, accel_row 1 1, accel_row 2 1, accel_row 3 1]
                   [\<lparr>turn_td = 1, auc = 5 / 2, turn_duration = 2, aucXt = 5\<rparr>]) = [5, 5, 0, 0] \<and>
   ov_aucXt (create_overlay_data [accel_row 0 1, accel_row 1 1, accel_row 2 1, accel_row 3 1]
               [\<lparr>turn_td = 1, auc = 5 / 2, turn_duration = 2, aucXt = 5\<rparr>] ! 0) = 5 \<and>
   ov_turn_duration (create_overlay_data [accel_row 0 1, accel_row 1 1, accel_row 2 1, accel_row 3 1]
               [\<lparr>turn_td = 1, auc = 5 / 2, turn_duration = 2, aucXt = 5\<rparr>] ! 0) = 2"
  using overlay_fill[of 0 "[accel_row 0 1, accel_row 1 1, accel_row 2 1, accel_row 3 1]"
      "[\<lparr>turn_td = 1, auc = 5 / 2, turn_duration = 2, aucXt = 5\<rparr>]"]
  by (simp add: create_overlay_data_def pd_merge_left_def accel_row_def fillna_def next_known_def)

section \<open>Cleaning a recording\<close>






section \<open>Turn events\<close>

lemma np_diff_sorted: "sorted (x :: real list) \<Longrightarrow> \<forall>d\<in>set (np_diff x). 0 \<le> d"
  by (induction x rule: np_diff.induct) auto

lemma metrics_auc_sorted:
  assumes "sorted x" "length x = length y" "2 \<le> length x"
  shows "metrics_auc x y = Inr (np_trapz y x)"
proof -
  have "\<not> list_ex (\<lambda>d. d < 0) (np_diff x)"
    using np_diff_sorted[OF assms(1)] by (auto simp: list_ex_iff)
  then show ?thesis using assms by (simp add: metrics_auc_def Let_def)
qed

lemma sorted_slice: "sorted a \<Longrightarrow> sorted (slice a lo hi)"
  by (simp add: slice_def sorted_wrt_drop sorted_wrt_take)

lemma length_slice: "hi \<le> length a \<Longrightarrow> length (slice a lo hi) = hi - lo"
  by (simp add: slice_def)

lemma last_slice: "lo \<le> i \<Longrightarrow> i < length a \<Longrightarrow> last (slice a lo (Suc i)) = a ! i"
proof -
  assume a: "lo \<le> i" "i < length a"
  then have "last (drop lo (take (Suc i) a)) = last (take (Suc i) a)"
    by (intro last_drop) simp
  also have "\<dots> = take (Suc i) a ! i"
  proof -
    have l: "length (take (Suc i) a) = Suc i" using a by simp
    then have ne: "take (Suc i) a \<noteq> []" by auto
    show ?thesis using last_conv_nth[OF ne] unfolding l by simp
  qed
  also have "\<dots> = a ! i" by simp
  finally show ?thesis by (simp add: slice_def)
qed

lemma rotation_loop_spec:
  assumes "sorted tds" "length ys = length tds" "sorted_wrt (<) zcr"
    and "\<forall>i\<in>set zcr. start \<le> i \<and> Suc i < length tds"
  shows "calculate_rotation_loop tds ys start zcr =
           Inr (map (interval_event tds ys)
                  (filter (\<lambda>(s, i). 2 \<le> Suc i - s) (zip (start # map Suc zcr) zcr)))"
  using assms(3,4)
proof (induction zcr arbitrary: start)
  case Nil
  then show ?case by simp
next
  case (Cons i zcr)
  have si: "start \<le> i" and il: "Suc i < length tds" using Cons.prems(2) by auto
  have IH: "calculate_rotation_loop tds ys (Suc i) zcr =
           Inr (map (interval_event tds ys)
                  (filter (\<lambda>(s, i). 2 \<le> Suc i - s) (zip (Suc i # map Suc zcr) zcr)))"
    using Cons.prems by (intro Cons.IH) auto
  have lx: "length (slice tds start (Suc i)) = Suc i - start"
    and ly: "length (slice ys start (Suc i)) = Suc i - start"
    using il assms(2) by (simp_all add: length_slice)
  have i0: "iloc tds (Suc i) = Inr (tds ! Suc i)" using il by (simp add: iloc_def)
  have i1: "iloc tds start = Inr (tds ! start)" using il si by (simp add: iloc_def)
  show ?case
  proof (cases "2 \<le> Suc i - start")
    case True
    have auc: "metrics_auc (slice tds start (Suc i)) (slice ys start (Suc i))
               = Inr (np_trapz (slice ys start (Suc i)) (slice tds start (Suc i)))"
      using True lx ly sorted_slice[OF assms(1)] by (intro metrics_auc_sorted) simp_all
    have lst: "last (slice tds start (Suc i)) = tds ! i"
      using si il by (intro last_slice) simp_all
    show ?thesis
      using True by (simp add: i0 i1 ly auc lst IH Let_def interval_event_def)
  next
    case False
    then show ?thesis by (simp add: i0 i1 ly IH Let_def)
  qed
qed

lemma np_where_sorted: "sorted_wrt (<) (np_where c)"
  by (simp add: np_where_def sorted_wrt_filter)

lemma np_where_bound: "i \<in> set (np_where c) \<Longrightarrow> i < length c"
  by (simp add: np_where_def)

lemma length_np_diff: "length (np_diff a) = length a - 1"
  by (induction a rule: np_diff.induct) auto

lemma detect_zcr_bound: "i \<in> set (detect_zcr a) \<Longrightarrow> Suc i < length a"
  using np_where_bound[of i "map (\<lambda>d. d \<noteq> 0) (np_diff (map sgn a))"]
  by (simp add: detect_zcr_def length_np_diff)

lemma rotation_loop_zcr:
  assumes "sorted tds" "length ys = length tds"
  shows "calculate_rotation_loop tds ys 0 (detect_zcr ys) =
           Inr (map (interval_event tds ys)
                  (filter (\<lambda>(s, i). 2 \<le> Suc i - s) (intervals (detect_zcr ys))))"
  unfolding intervals_def
  using assms detect_zcr_bound[of _ ys]
  by (intro rotation_loop_spec) (auto simp: detect_zcr_def np_where_sorted)

text \<open>
  C2, as the code has it. For every rotation frame whose \<^verbatim>\<open>td\<close> column is
  non-decreasing, \<^verbatim>\<open>calculate_rotation\<close> returns one turn event for each interval (the
  initial one, and each one between consecutive crossing indices) whose sub-series has at
  least 2 samples, in order, and none for the others. The event's \<^verbatim>\<open>td\<close> marker is the
  \<^verbatim>\<open>td\<close> of the last sample of the sub-series; its duration is the \<^verbatim>\<open>td\<close> of the
  first sample after the sub-series (the start of the next interval) minus the \<^verbatim>\<open>td\<close> of
  the first sample of the sub-series; its \<^verbatim>\<open>auc\<close> is the absolute trapezoidal area of the
  filtered signal over the sub-series, and \<^verbatim>\<open>aucXt\<close> is that area times that duration.
\<close>

theorem turn_events:
  assumes "sorted (map td data)"
  shows "calculate_rotation e data orient =
           (let ys = butter_lowpass_filter e (map (column orient) data) 100 2 2;
                tds = map td data
            in Inr (map (interval_event tds ys)
                      (filter (\<lambda>(s, i). 2 \<le> Suc i - s) (intervals (detect_zcr ys)))))"
  using rotation_loop_zcr[OF assms, of "butter_lowpass_filter e (map (column orient) data) 100 2 2"]
  by (simp add: calculate_rotation_def assign_column_def length_butter_lowpass_filter Let_def)

theorem turn_events_witness:
  "sorted (map td [rotation_row 0 3, rotation_row 1 3, rotation_row 2 (- 3), rotation_row 3 (- 3)]) \<and>
   intervals (detect_zcr [3, 3, - 3, - 3]) = [(0, 1)] \<and>
   interval_event [0, 1, 2, 3] [3, 3, - 3, - 3] (0, 1)
     = \<lparr>turn_td = 1, auc = 3, turn_duration = 2, aucXt = 6\<rparr> \<and>
   calculate_rotation example_env
     [rotation_row 0 3, rotation_row 1 3, rotation_row 2 (- 3), rotation_row 3 (- 3)] Orient_y
   = Inr [\<lparr>turn_td = 1, auc = 3, turn_duration = 2, aucXt = 6\<rparr>]"
proof -
  let ?d = "[rotation_row 0 3, rotation_row 1 3, rotation_row 2 (- 3), rotation_row 3 (- 3)]"
  have m: "map td ?d = [0, 1, 2, 3]" by (simp add: rotation_row_def)
  have s: "sorted (map td ?d)" unfolding m by simp
  have f: "butter_lowpass_filter example_env (map (column Orient_y) ?d) 100 2 2 = [3, 3, - 3, - 3]"
    by (simp add: butter_lowpass_filter_def lfilter_def dot_def example_env_def rotation_row_def)
  have z: "intervals (detect_zcr [3, 3, - 3, - 3]) = [(0, 1)]"
    by (simp add: intervals_def detect_zcr_def np_where_def upt_rec)
  have ev: "interval_event [0, 1, 2, 3] [3, 3, - 3, - 3] (0, 1)
              = \<lparr>turn_td = 1, auc = 3, turn_duration = 2, aucXt = 6\<rparr>"
    by (simp add: interval_event_def slice_def)
  have "calculate_rotation example_env ?d Orient_y
        = Inr [\<lparr>turn_td = 1, auc = 3, turn_duration = 2, aucXt = 6\<rparr>]"
    using turn_events[OF s, of example_env Orient_y] ev unfolding f m Let_def z
    by simp
  then show ?thesis using s z ev by simp
qed

text \<open>The claim as stated fails. Filtered signal \<open>1, 1, -1\<close> at times \<open>0, 1, 2\<close>: the
  only crossing index is 1, the sub-series is the first two samples, and the time from its
  first to its last sample is 1; the event has duration 2 and \<^verbatim>\<open>aucXt\<close> \<open>1 \<times> 2\<close>.\<close>

theorem turn_duration_counterexample:
  "detect_zcr [1, 1, - 1] = [1] \<and>
   slice [0, 1, 2 :: real] 0 (1 + 1) = [0, 1] \<and>
   last (slice [0, 1, 2 :: real] 0 (1 + 1)) - hd (slice [0, 1, 2 :: real] 0 (1 + 1)) = 1 \<and>
   calculate_rotation_loop [0, 1, 2] [1, 1, - 1] 0 (detect_zcr [1, 1, - 1]) =
     Inr [\<lparr>turn_td = 1, auc = 1, turn_duration = 2, aucXt = 2\<rparr>]"
  by (simp add: detect_zcr_def np_where_def upt_rec slice_def iloc_def metrics_auc_def)

section \<open>Walking bouts\<close>

lemma groupby_head:
  "groupby key xs = (k, g) # gs \<Longrightarrow> g \<noteq> [] \<and> hd g = hd xs \<and> k = key (hd xs)"
  by (cases xs) (auto split: list.splits if_splits)

lemma groupby_Nil_iff: "groupby key xs = [] \<longleftrightarrow> xs = []"
  by (cases xs) (auto split: list.splits)

lemma zip_upt_Cons: "zip [k..<k + length (v # vs)] (v # vs) = (k, v) # zip [Suc k..<Suc k + length vs] vs"
  by (simp add: upt_conv_Cons del: upt_Suc)

lemma separate_from:
  "map (\<lambda>(q, g). map snd g) (groupby (\<lambda>(i, v). int i - int v) (zip [k..<k + length vs] vs))
   = split_runs vs"
proof (induction vs arbitrary: k)
  case Nil
  then show ?case by simp
next
  case (Cons v vs)
  let ?key = "\<lambda>(i, v). int i - int v"
  let ?G = "groupby ?key (zip [Suc k..<Suc k + length vs] vs)"
  have IH: "map (\<lambda>(q, g). map snd g) ?G = split_runs vs" by (rule Cons.IH)
  show ?case
  proof (cases ?G)
    case Nil
    then have "split_runs vs = []" using IH by simp
    then show ?thesis unfolding zip_upt_Cons using Nil by simp
  next
    case (Cons p gs)
    obtain kk g where p: "p = (kk, g)" by (cases p)
    have h: "g \<noteq> [] \<and> hd g = hd (zip [Suc k..<Suc k + length vs] vs)
             \<and> kk = ?key (hd (zip [Suc k..<Suc k + length vs] vs))"
      using groupby_head[of ?key _ kk g gs] Cons p by simp
    have ne: "vs \<noteq> []" using Cons groupby_Nil_iff[of ?key "zip [Suc k..<Suc k + length vs] vs"] by auto
    then have hz: "hd (zip [Suc k..<Suc k + length vs] vs) = (Suc k, hd vs)"
      by (cases vs) (simp_all add: upt_conv_Cons del: upt_Suc)
    have sr: "split_runs vs = map snd g # map (\<lambda>(q, g). map snd g) gs"
      using IH Cons p by simp
    have hg: "hd (map snd g) = hd vs" using h hz by (simp add: hd_map)
    have kk: "kk = int (Suc k) - int (hd vs)" using h hz by simp
    have cond: "(?key (k, v) = kk) = (Suc v = hd (map snd g))"
      unfolding kk hg by auto
    show ?thesis
      unfolding zip_upt_Cons using Cons p sr cond by simp
  qed
qed

lemma separate_eq_split: "separate_array_sequence array = split_runs array"
  using separate_from[of 0 array] by (simp add: separate_array_sequence_def)

lemma concat_split_runs: "concat (split_runs vs) = vs"
  by (induction vs) (auto split: list.splits)

lemma split_runs_nonempty: "[] \<notin> set (split_runs vs)"
  by (induction vs) (auto split: list.splits)

lemma split_runs_hd: "split_runs vs = g # gs \<Longrightarrow> hd g = hd vs"
  using split_runs_nonempty[of vs] concat_split_runs[of vs] by (cases g) auto

lemma upt_Cons_shift: "g = [Suc v..<Suc v + length g] \<Longrightarrow> v # g = [v..<v + length (v # g)]"
proof -
  assume a: "g = [Suc v..<Suc v + length g]"
  have "[v..<v + length (v # g)] = v # [Suc v..<Suc v + length g]"
    by (simp add: upt_conv_Cons del: upt_Suc)
  then show ?thesis using a by simp
qed

lemma split_runs_consecutive: "g \<in> set (split_runs vs) \<Longrightarrow> g = [hd g..<hd g + length g]"
proof (induction vs arbitrary: g)
  case Nil
  then show ?case by simp
next
  case (Cons v vs)
  show ?case
  proof (cases "split_runs vs")
    case Nil
    then have "g = [v]" using Cons.prems by simp
    then show ?thesis by (simp add: upt_conv_Cons del: upt_Suc)
  next
    case (Cons g0 gs)
    have g0: "g0 = [hd g0..<hd g0 + length g0]"
      by (rule Cons.IH) (simp add: Cons)
    show ?thesis
    proof (cases "Suc v = hd g0")
      case True
      then have "g = v # g0 \<or> g \<in> set gs" using Cons.prems Cons by simp
      then show ?thesis
      proof
        assume e: "g = v # g0"
        have "g0 = [Suc v..<Suc v + length g0]" using g0 True by simp
        then have "v # g0 = [v..<v + length (v # g0)]" by (rule upt_Cons_shift)
        then show ?thesis unfolding e list.sel .
      next
        assume "g \<in> set gs"
        then show ?thesis by (intro Cons.IH) (simp add: Cons)
      qed
    next
      case False
      then have "g = [v] \<or> g \<in> set (split_runs vs)" using Cons.prems Cons by auto
      then show ?thesis
      proof
        assume "g = [v]"
        then show ?thesis by (simp add: upt_conv_Cons del: upt_Suc)
      next
        assume "g \<in> set (split_runs vs)"
        then show ?thesis by (rule Cons.IH)
      qed
    qed
  qed
qed

lemma split_runs_subset: "g \<in> set (split_runs vs) \<Longrightarrow> set g \<subseteq> set vs"
  using concat_split_runs[of vs] by (metis Sup_upper image_eqI set_concat)

lemma split_runs_hd_last_in:
  assumes "g \<in> set (split_runs vs)"
  shows "hd g \<in> set vs \<and> last g \<in> set vs"
proof -
  have "g \<noteq> []" using assms split_runs_nonempty[of vs] by auto
  then show ?thesis using split_runs_subset[OF assms] by auto
qed

lemma sorted_min_hd:
  assumes "sorted_wrt (<) (vs :: nat list)" "\<forall>x\<in>set vs. v < x" "Suc v \<in> set vs"
  shows "hd vs = Suc v"
proof (cases vs)
  case Nil
  then show ?thesis using assms(3) by simp
next
  case (Cons a rest)
  have "v < a" using assms(2) Cons by simp
  moreover have "a \<le> Suc v" using assms(1,3) Cons by auto
  ultimately show ?thesis using Cons by simp
qed

lemma split_runs_heads_differ:
  assumes "distinct vs" "split_runs vs = g0 # gs" "h \<in> set gs"
  shows "hd h \<noteq> hd g0"
proof -
  have d: "distinct (g0 @ concat gs)" using assms(1,2) concat_split_runs[of vs] by simp
  have ne: "g0 \<noteq> []" "h \<noteq> []" using split_runs_nonempty[of vs] assms(2,3) by auto
  have a: "hd g0 \<in> set g0" using ne by simp
  have "hd h \<in> set h" using ne by simp
  then have b: "hd h \<in> set (concat gs)" using assms(3) by auto
  have "set g0 \<inter> set (concat gs) = {}" using d by simp
  then show ?thesis using a b by (metis IntI empty_iff)
qed

lemma split_runs_maximal:
  assumes "sorted_wrt (<) vs" "g \<in> set (split_runs vs)"
  shows "(\<forall>u. Suc u = hd g \<longrightarrow> u \<notin> set vs) \<and> Suc (last g) \<notin> set vs"
  using assms
proof (induction vs arbitrary: g)
  case Nil
  then show ?case by simp
next
  case (Cons v vs)
  have gt: "\<forall>x\<in>set vs. v < x" and srt: "sorted_wrt (<) vs" using Cons.prems(1) by auto
  have dist: "distinct vs" using srt by (simp add: strict_sorted_iff)
  note IH = Cons.IH[OF srt]
  show ?case
  proof (cases "split_runs vs")
    case Nil
    then have "vs = []" using concat_split_runs[of vs] by simp
    then show ?thesis using Cons.prems(2) by auto
  next
    case (Cons g0 gs)
    have g0in: "g0 \<in> set (split_runs vs)" using Cons by simp
    have hd0: "hd g0 = hd vs" using Cons by (rule split_runs_hd)
    have ne0: "g0 \<noteq> []" using split_runs_nonempty[of vs] Cons by auto
    have old: "(\<forall>u. Suc u = hd h \<longrightarrow> u \<notin> set (v # vs)) \<and> Suc (last h) \<notin> set (v # vs)"
      if h: "h \<in> set (split_runs vs)" and hh: "hd h \<noteq> Suc v" for h
    proof -
      have "last h \<in> set vs" using split_runs_hd_last_in[OF h] by simp
      then have "Suc (last h) \<noteq> v" using gt by auto
      then show ?thesis using IH[OF h] hh by auto
    qed
    have single: "\<forall>u. Suc u = v \<longrightarrow> u \<notin> set (v # vs)" using gt by auto
    show ?thesis
    proof (cases "Suc v = hd g0")
      case True
      then have "g = v # g0 \<or> g \<in> set gs" using Cons.prems(2) Cons by simp
      then show ?thesis
      proof
        assume e: "g = v # g0"
        have "last g0 \<in> set vs" using split_runs_hd_last_in[OF g0in] by simp
        then have "Suc (last g0) \<noteq> v" using gt by auto
        then show ?thesis using IH[OF g0in] single ne0 unfolding e by simp
      next
        assume gin: "g \<in> set gs"
        then have "hd g \<noteq> hd g0" using split_runs_heads_differ[OF dist Cons] by simp
        then show ?thesis using old[of g] gin Cons True by simp
      qed
    next
      case False
      have nosucc: "Suc v \<notin> set vs"
        using sorted_min_hd[OF srt gt] hd0 False by auto
      from False have "g = [v] \<or> g \<in> set (split_runs vs)" using Cons.prems(2) Cons by auto
      then show ?thesis
      proof
        assume "g = [v]"
        then show ?thesis using single nosucc by simp
      next
        assume gin: "g \<in> set (split_runs vs)"
        have "hd g \<in> set vs" using split_runs_hd_last_in[OF gin] by simp
        then have "hd g \<noteq> Suc v" using nosucc by auto
        then show ?thesis using old[OF gin] by simp
      qed
    qed
  qed
qed

lemma distinct_concat_unique:
  assumes "distinct (concat gs)" "[] \<notin> set gs" "j < length gs" "k < length gs"
    "i \<in> set (gs ! j)" "i \<in> set (gs ! k)"
  shows "j = k"
proof (rule ccontr)
  assume "j \<noteq> k"
  have "distinct gs" using assms(1,2) by (simp add: distinct_concat_iff removeAll_id)
  then have "gs ! j \<noteq> gs ! k" using \<open>j \<noteq> k\<close> assms(3,4) by (simp add: nth_eq_iff_index_eq)
  then have "set (gs ! j) \<inter> set (gs ! k) = {}"
    using assms(1,3,4) by (simp add: distinct_concat_iff)
  then show False using assms(5,6) by auto
qed

lemma set_walking:
  "set (np_where (map (\<lambda>r. ov_aucXt r < 2) data)) = {i. i < length data \<and> ov_aucXt (data ! i) < 2}"
  by (auto simp: np_where_def)

lemma walking_seqs_eq:
  "walking_seqs_of data = split_runs (np_where (map (\<lambda>r. ov_aucXt r < 2) data))"
  by (simp add: walking_seqs_of_def separate_eq_split)

lemma slice_upt: "hi \<le> length a \<Longrightarrow> slice a lo hi = map ((!) a) [lo..<hi]"
  by (auto simp: slice_def list_eq_iff_nth_eq)

lemma consecutive_last:
  assumes "g = [hd g..<hd g + length g]" "g \<noteq> []"
  shows "Suc (last g) = hd g + length g"
proof -
  have "0 < length g" using assms(2) by simp
  then have "last [hd g..<hd g + length g] = hd g + length g - 1"
    by (intro last_upt) simp
  then show ?thesis using assms by simp
qed


section \<open>An example run of the pipeline\<close>

text \<open>Five acceleration rows and four rotation rows whose signal changes sign once: one
  turn event ending at \<open>td = 1\<close> with \<open>aucXt = 6\<close>, two turning rows, and one walking
  bout of three rows.\<close>

lemma ex_rotation:
  "calculate_rotation example_env
     [rotation_row 0 3, rotation_row 1 3, rotation_row 2 (- 3), rotation_row 3 (- 3)] Orient_y
   = Inr [\<lparr>turn_td = 1, auc = 3, turn_duration = 2, aucXt = 6\<rparr>]"
  by (simp add: calculate_rotation_def assign_column_def butter_lowpass_filter_def lfilter_def
      dot_def example_env_def rotation_row_def detect_zcr_def np_where_def upt_rec slice_def
      iloc_def metrics_auc_def Let_def)

lemma ex_overlay:
  "create_overlay_data [accel_row 0 1, accel_row 1 1, accel_row 2 1, accel_row 3 1, accel_row 4 1]
     [\<lparr>turn_td = 1, auc = 3, turn_duration = 2, aucXt = 6\<rparr>]
   = [\<lparr>ov_row = accel_row 0 1, ov_auc = None, ov_turn_duration = 2, ov_aucXt = 6\<rparr>,
      \<lparr>ov_row = accel_row 1 1, ov_auc = Some 3, ov_turn_duration = 2, ov_aucXt = 6\<rparr>,
      \<lparr>ov_row = accel_row 2 1, ov_auc = None, ov_turn_duration = 0, ov_aucXt = 0\<rparr>,
      \<lparr>ov_row = accel_row 3 1, ov_auc = None, ov_turn_duration = 0, ov_aucXt = 0\<rparr>,
      \<lparr>ov_row = accel_row 4 1, ov_auc = None, ov_turn_duration = 0, ov_aucXt = 0\<rparr>]"
  by (simp add: create_overlay_data_def pd_merge_left_def fillna_def accel_row_def)

lemma ex_seqs:
  "walking_seqs_of
     [\<lparr>ov_row = accel_row 0 1, ov_auc = None, ov_turn_duration = 2, ov_aucXt = 6\<rparr>,
      \<lparr>ov_row = accel_row 1 1, ov_auc = Some 3, ov_turn_duration = 2, ov_aucXt = 6\<rparr>,
      \<lparr>ov_row = accel_row 2 1, ov_auc = None, ov_turn_duration = 0, ov_aucXt = 0\<rparr>,
      \<lparr>ov_row = accel_row 3 1, ov_auc = None, ov_turn_duration = 0, ov_aucXt = 0\<rparr>,
      \<lparr>ov_row = accel_row 4 1, ov_auc = None, ov_turn_duration = 0, ov_aucXt = 0\<rparr>]
   = [[2, 3, 4]]"
  by (simp add: walking_seqs_of_def separate_array_sequence_def np_where_def upt_rec)

lemma ex_bouts:
  "bouts_loop example_env
     [\<lparr>ov_row = accel_row 0 1, ov_auc = None, ov_turn_duration = 2, ov_aucXt = 6\<rparr>,
      \<lparr>ov_row = accel_row 1 1, ov_auc = Some 3, ov_turn_duration = 2, ov_aucXt = 6\<rparr>,
      \<lparr>ov_row = accel_row 2 1, ov_auc = None, ov_turn_duration = 0, ov_aucXt = 0\<rparr>,
      \<lparr>ov_row = accel_row 3 1, ov_auc = None, ov_turn_duration = 0, ov_aucXt = 0\<rparr>,
      \<lparr>ov_row = accel_row 4 1, ov_auc = None, ov_turn_duration = 0, ov_aucXt = 0\<rparr>]
     Orient_y [[2, 3, 4]]
   = Inr [(0, Fin (3 / 2))]"
  by (simp add: bout_rates_def first_item_def last_item_def slice_def steps_short
      np_true_divide_def example_env_def accel_row_def)

lemma ex_pipeline_frame:
  "pipeline_frame example_env
     [accel_row 0 1, accel_row 1 1, accel_row 2 1, accel_row 3 1, accel_row 4 1,
      rotation_row 0 3, rotation_row 1 3, rotation_row 2 (- 3), rotation_row 3 (- 3)] Orient_y
   = Inr \<lparr>wchunk_mean_no_of_steps_per_secs = Fin 0,
          no_wchunk_mean_no_of_steps_per_secs = Fin (3 / 2),
          rotation_no_of_turns = 1,
          rotation_mean_duration = Fin 2,
          rotation_min_duration = Fin 2,
          rotation_max_duration = Fin 2\<rparr>"
proof -
  have a: "filter (\<lambda>r. sensorType r = ''userAcceleration'')
             [accel_row 0 1, accel_row 1 1, accel_row 2 1, accel_row 3 1, accel_row 4 1,
              rotation_row 0 3, rotation_row 1 3, rotation_row 2 (- 3), rotation_row 3 (- 3)]
           = [accel_row 0 1, accel_row 1 1, accel_row 2 1, accel_row 3 1, accel_row 4 1]"
    by (simp add: accel_row_def rotation_row_def)
  have r: "filter (\<lambda>r. sensorType r = ''rotationRate'')
             [accel_row 0 1, accel_row 1 1, accel_row 2 1, accel_row 3 1, accel_row 4 1,
              rotation_row 0 3, rotation_row 1 3, rotation_row 2 (- 3), rotation_row 3 (- 3)]
           = [rotation_row 0 3, rotation_row 1 3, rotation_row 2 (- 3), rotation_row 3 (- 3)]"
    by (simp add: accel_row_def rotation_row_def)
  show ?thesis
    unfolding pipeline_frame_def a r Let_def ex_rotation sum.case ex_overlay ex_seqs ex_bouts
    by (simp add: rotation_features_def np_mean_def pd_mean_def)
qed

section \<open>The partition of the timeline\<close>

text \<open>
  C4. For every merged timeline, every index is either turning (\<^verbatim>\<open>aucXt\<close> at least 2)
  and then in no walking bout, or walking (\<^verbatim>\<open>aucXt\<close> below 2) and then in exactly one
  walking bout. Every walking bout is a non-empty run of consecutive indices of the
  timeline, all walking, that cannot be extended: the index before its first one and the
  index after its last one are turning or lie outside the timeline. The rows the pipeline
  takes for a bout, \<^verbatim>\<open>data.loc[seqs[0]:seqs[-1]]\<close>, are the rows at the indices of the
  bout.
\<close>

theorem walking_bouts_partition:
  "(\<forall>i<length data.
      (2 \<le> ov_aucXt (data ! i) \<and> (\<forall>g\<in>set (walking_seqs_of data). i \<notin> set g)) \<or>
      (ov_aucXt (data ! i) < 2 \<and>
       (\<exists>!k. k < length (walking_seqs_of data) \<and> i \<in> set (walking_seqs_of data ! k)))) \<and>
   (\<forall>g\<in>set (walking_seqs_of data).
      g \<noteq> [] \<and> g = [hd g..<Suc (last g)] \<and> last g < length data \<and>
      (\<forall>i\<in>set g. ov_aucXt (data ! i) < 2) \<and>
      (hd g = 0 \<or> 2 \<le> ov_aucXt (data ! (hd g - 1))) \<and>
      (Suc (last g) = length data \<or> 2 \<le> ov_aucXt (data ! Suc (last g))) \<and>
      slice data (hd g) (last g + 1) = map ((!) data) g)"
proof (intro conjI allI ballI impI)
  let ?W = "np_where (map (\<lambda>r. ov_aucXt r < 2) data)"
  let ?S = "walking_seqs_of data"
  have S: "?S = split_runs ?W" by (rule walking_seqs_eq)
  have cc: "concat ?S = ?W" unfolding S by (rule concat_split_runs)
  have srt: "sorted_wrt (<) ?W" by (rule np_where_sorted)
  have dist: "distinct (concat ?S)" unfolding cc using srt by (simp add: strict_sorted_iff)
  have ne: "[] \<notin> set ?S" unfolding S by (rule split_runs_nonempty)
  {
    fix i assume i: "i < length data"
    show "(2 \<le> ov_aucXt (data ! i) \<and> (\<forall>g\<in>set ?S. i \<notin> set g)) \<or>
          (ov_aucXt (data ! i) < 2 \<and> (\<exists>!k. k < length ?S \<and> i \<in> set (?S ! k)))"
    proof (cases "ov_aucXt (data ! i) < 2")
      case True
      then have "i \<in> set (concat ?S)" unfolding cc set_walking using i by simp
      then obtain g where "g \<in> set ?S" "i \<in> set g" by auto
      then obtain k where k: "k < length ?S" "i \<in> set (?S ! k)"
        by (auto simp: in_set_conv_nth)
      have "k' = k" if "k' < length ?S \<and> i \<in> set (?S ! k')" for k'
        using distinct_concat_unique[OF dist ne _ k(1) _ k(2), of k'] that by simp
      then show ?thesis using True k by blast
    next
      case False
      then have "i \<notin> set (concat ?S)" unfolding cc set_walking by simp
      then show ?thesis using False by auto
    qed
  }
  {
    fix g assume g: "g \<in> set ?S"
    then have gs: "g \<in> set (split_runs ?W)" unfolding S .
    show gne: "g \<noteq> []" using g ne by auto
    have cons: "g = [hd g..<hd g + length g]" using gs by (rule split_runs_consecutive)
    have sl: "Suc (last g) = hd g + length g" using cons gne by (rule consecutive_last)
    show "g = [hd g..<Suc (last g)]" unfolding sl by (rule cons)
    have sub: "set g \<subseteq> {i. i < length data \<and> ov_aucXt (data ! i) < 2}"
      using split_runs_subset[OF gs] unfolding set_walking .
    have "last g \<in> set g" using gne by simp
    then show ll: "last g < length data" using sub by auto
    show "ov_aucXt (data ! i) < 2" if "i \<in> set g" for i using sub that by auto
    have mx: "(\<forall>u. Suc u = hd g \<longrightarrow> u \<notin> set ?W) \<and> Suc (last g) \<notin> set ?W"
      using split_runs_maximal[OF srt gs] .
    have "hd g \<in> set g" using gne by simp
    then have hl: "hd g < length data" using sub by auto
    show "hd g = 0 \<or> 2 \<le> ov_aucXt (data ! (hd g - 1))"
    proof (cases "hd g")
      case 0
      then show ?thesis by simp
    next
      case (Suc u)
      then have "u \<notin> set ?W" using mx by simp
      then show ?thesis using hl Suc unfolding set_walking by auto
    qed
    show "Suc (last g) = length data \<or> 2 \<le> ov_aucXt (data ! Suc (last g))"
      using mx ll unfolding set_walking by auto
    have "slice data (hd g) (Suc (last g)) = map ((!) data) [hd g..<hd g + length g]"
      unfolding sl[symmetric] using ll by (intro slice_upt) simp
    also have "\<dots> = map ((!) data) g" using cons by (rule arg_cong[OF sym])
    finally show "slice data (hd g) (last g + 1) = map ((!) data) g" by simp
  }
qed

theorem walking_bouts_partition_witness:
  "walking_seqs_of
     [\<lparr>ov_row = accel_row 0 1, ov_auc = None, ov_turn_duration = 2, ov_aucXt = 6\<rparr>,
      \<lparr>ov_row = accel_row 1 1, ov_auc = Some 3, ov_turn_duration = 2, ov_aucXt = 6\<rparr>,
      \<lparr>ov_row = accel_row 2 1, ov_auc = None, ov_turn_duration = 0, ov_aucXt = 0\<rparr>,
      \<lparr>ov_row = accel_row 3 1, ov_auc = None, ov_turn_duration = 0, ov_aucXt = 0\<rparr>,
      \<lparr>ov_row = accel_row 4 1, ov_auc = None, ov_turn_duration = 0, ov_aucXt = 0\<rparr>]
   = [[2, 3, 4]] \<and>
   [2, 3, 4] = [hd [2, 3, 4]..<Suc (last [2, 3, 4])] \<and>
   length [\<lparr>ov_row = accel_row 0 1, ov_auc = None, ov_turn_duration = 2, ov_aucXt = 6\<rparr>,
      \<lparr>ov_row = accel_row 1 1, ov_auc = Some 3, ov_turn_duration = 2, ov_aucXt = 6\<rparr>,
      \<lparr>ov_row = accel_row 2 1, ov_auc = None, ov_turn_duration = 0, ov_aucXt = 0\<rparr>,
      \<lparr>ov_row = accel_row 3 1, ov_auc = None, ov_turn_duration = 0, ov_aucXt = 0\<rparr>,
      \<lparr>ov_row = accel_row 4 1, ov_auc = None, ov_turn_duration = 0, ov_aucXt = 0\<rparr>] = 5"
  using walking_bouts_partition[of
      "[\<lparr>ov_row = accel_row 0 1, ov_auc = None, ov_turn_duration = 2, ov_aucXt = 6\<rparr>,
      \<lparr>ov_row = accel_row 1 1, ov_auc = Some 3, ov_turn_duration = 2, ov_aucXt = 6\<rparr>,
      \<lparr>ov_row = accel_row 2 1, ov_auc = None, ov_turn_duration = 0, ov_aucXt = 0\<rparr>,
      \<lparr>ov_row = accel_row 3 1, ov_auc = None, ov_turn_duration = 0, ov_aucXt = 0\<rparr>,
      \<lparr>ov_row = accel_row 4 1, ov_auc = None, ov_turn_duration = 0, ov_aucXt = 0\<rparr>]"]
  unfolding ex_seqs by (simp add: upt_rec)

section \<open>The sentinel\<close>




section \<open>The rotation block\<close>

lemma foldl_min_Min: "foldl min (v :: real) vs = Min (set (v # vs))"
proof -
  have "(\<lambda>x s. min s x) = (min :: real \<Rightarrow> real \<Rightarrow> real)"
    by (intro ext) (simp add: min.commute)
  then have "foldl min v vs = fold min vs v" by (simp add: foldl_conv_fold)
  then show ?thesis by (simp only: Min.set_eq_fold)
qed

lemma foldl_max_Max: "foldl max (v :: real) vs = Max (set (v # vs))"
proof -
  have "(\<lambda>x s. max s x) = (max :: real \<Rightarrow> real \<Rightarrow> real)"
    by (intro ext) (simp add: max.commute)
  then have "foldl max v vs = fold max vs v" by (simp add: foldl_conv_fold)
  then show ?thesis by (simp only: Max.set_eq_fold)
qed

lemma pd_min_Min: "col \<noteq> [] \<Longrightarrow> pd_min col = Min (set col)"
  by (cases col) (simp_all add: foldl_min_Min del: set_simps)

lemma pd_max_Max: "col \<noteq> [] \<Longrightarrow> pd_max col = Max (set col)"
  by (cases col) (simp_all add: foldl_max_Max del: set_simps)

lemma rotation_features_eq:
  "rotation_features evs =
     (let q = filter (\<lambda>ev. 2 < aucXt ev) evs
      in if q = [] then (0, Fin 0, Fin 0, Fin 0)
         else (length q,
               Fin (sum_list (map turn_duration q) / real (length q)),
               Fin (Min (set (map turn_duration q))),
               Fin (Max (set (map turn_duration q)))))"
  by (simp add: rotation_features_def Let_def pd_mean_def pd_min_Min pd_max_Max)

lemma pipeline_frame_rotation:
  assumes "pipeline_frame e d orient = Inr fr"
  shows "\<exists>evs. calculate_rotation e (filter (\<lambda>r. sensorType r = ''rotationRate'') d) orient = Inr evs \<and>
           (rotation_no_of_turns fr, rotation_mean_duration fr,
            rotation_min_duration fr, rotation_max_duration fr) = rotation_features evs"
  using assms
  by (auto simp: pipeline_frame_def Let_def split: sum.splits prod.splits)

text \<open>
  C8. The rotation block of the feature record is computed from exactly the turn events
  with \<^verbatim>\<open>aucXt\<close> strictly greater than 2: when there is none, the count is 0 and the
  mean, minimum and maximum duration are the number 0; otherwise they are the count of
  the qualifying events and the mean, minimum and maximum of their durations. The events
  are those \<^verbatim>\<open>calculate_rotation\<close> returns for the rotation rows of the recording. In
  particular, two events with \<^verbatim>\<open>aucXt\<close> 5 and 0.5 give one turn whose mean, minimum and
  maximum duration are the duration of the first event.
\<close>

theorem rotation_block:
  "rotation_features evs =
     (let q = filter (\<lambda>ev. 2 < aucXt ev) evs
      in if q = [] then (0, Fin 0, Fin 0, Fin 0)
         else (length q,
               Fin (sum_list (map turn_duration q) / real (length q)),
               Fin (Min (set (map turn_duration q))),
               Fin (Max (set (map turn_duration q))))) \<and>
   (pipeline_frame e d orient = Inr fr \<longrightarrow>
      (\<exists>evs'. calculate_rotation e (filter (\<lambda>r. sensorType r = ''rotationRate'') d) orient = Inr evs' \<and>
         (rotation_no_of_turns fr, rotation_mean_duration fr,
          rotation_min_duration fr, rotation_max_duration fr) = rotation_features evs')) \<and>
   (aucXt e1 = 5 \<and> aucXt e2 = 1 / 2 \<longrightarrow>
      rotation_features [e1, e2] =
        (1, Fin (turn_duration e1), Fin (turn_duration e1), Fin (turn_duration e1)))"
proof (intro conjI impI)
  show "rotation_features evs =
     (let q = filter (\<lambda>ev. 2 < aucXt ev) evs
      in if q = [] then (0, Fin 0, Fin 0, Fin 0)
         else (length q,
               Fin (sum_list (map turn_duration q) / real (length q)),
               Fin (Min (set (map turn_duration q))),
               Fin (Max (set (map turn_duration q)))))"
    by (rule rotation_features_eq)
next
  assume "pipeline_frame e d orient = Inr fr"
  then show "\<exists>evs'. calculate_rotation e (filter (\<lambda>r. sensorType r = ''rotationRate'') d) orient = Inr evs' \<and>
         (rotation_no_of_turns fr, rotation_mean_duration fr,
          rotation_min_duration fr, rotation_max_duration fr) = rotation_features evs'"
    by (rule pipeline_frame_rotation)
next
  assume "aucXt e1 = 5 \<and> aucXt e2 = 1 / 2"
  then show "rotation_features [e1, e2] =
        (1, Fin (turn_duration e1), Fin (turn_duration e1), Fin (turn_duration e1))"
    by (simp add: rotation_features_def pd_mean_def)
qed

theorem rotation_block_witness:
  "pipeline_frame example_env
     [accel_row 0 1, accel_row 1 1, accel_row 2 1, accel_row 3 1, accel_row 4 1,
      rotation_row 0 3, rotation_row 1 3, rotation_row 2 (- 3), rotation_row 3 (- 3)] Orient_y
   = Inr \<lparr>wchunk_mean_no_of_steps_per_secs = Fin 0,
          no_wchunk_mean_no_of_steps_per_secs = Fin (3 / 2),
          rotation_no_of_turns = 1,
          rotation_mean_duration = Fin 2,
          rotation_min_duration = Fin 2,
          rotation_max_duration = Fin 2\<rparr> \<and>
   aucXt \<lparr>turn_td = 1, auc = 5 / 3, turn_duration = 3, aucXt = 5\<rparr> = 5 \<and>
   aucXt \<lparr>turn_td = 2, auc = 1 / 2, turn_duration = 1, aucXt = 1 / 2\<rparr> = 1 / 2 \<and>
   rotation_features [\<lparr>turn_td = 1, auc = 5 / 3, turn_duration = 3, aucXt = 5\<rparr>,
                      \<lparr>turn_td = 2, auc = 1 / 2, turn_duration = 1, aucXt = 1 / 2\<rparr>]
   = (1, Fin 3, Fin 3, Fin 3)"
  using rotation_block[of "[]" example_env
      "[accel_row 0 1, accel_row 1 1, accel_row 2 1, accel_row 3 1, accel_row 4 1,
        rotation_row 0 3, rotation_row 1 3, rotation_row 2 (- 3), rotation_row 3 (- 3)]" Orient_y
      "\<lparr>wchunk_mean_no_of_steps_per_secs = Fin 0,
          no_wchunk_mean_no_of_steps_per_secs = Fin (3 / 2),
          rotation_no_of_turns = 1,
          rotation_mean_duration = Fin 2,
          rotation_min_duration = Fin 2,
          rotation_max_duration = Fin 2\<rparr>"
      "\<lparr>turn_td = 1, auc = 5 / 3, turn_duration = 3, aucXt = 5\<rparr>"
      "\<lparr>turn_td = 2, auc = 1 / 2, turn_duration = 1, aucXt = 1 / 2\<rparr>"]
  by (simp add: ex_pipeline_frame)

section \<open>Finite and non-negative features\<close>

lemma rotation_loop_events:
  "calculate_rotation_loop tds ys start zcr = Inr evs \<Longrightarrow>
   \<forall>ev\<in>set evs. 0 \<le> auc ev \<and> aucXt ev = auc ev * turn_duration ev"
proof (induction zcr arbitrary: start evs)
  case Nil
  then show ?case by simp
next
  case (Cons i zcr)
  then show ?case
    by (fastforce simp: Let_def split: sum.splits if_splits)
qed

lemma calculate_rotation_events:
  "calculate_rotation e data orient = Inr evs \<Longrightarrow>
   \<forall>ev\<in>set evs. 0 \<le> auc ev \<and> aucXt ev = auc ev * turn_duration ev"
  by (auto simp: calculate_rotation_def split: sum.splits dest!: rotation_loop_events)

lemma qualifying_duration_pos:
  assumes "0 \<le> auc ev" "aucXt ev = auc ev * turn_duration ev" "2 < aucXt ev"
  shows "0 < turn_duration ev"
proof (rule ccontr)
  assume "\<not> 0 < turn_duration ev"
  then have "auc ev * turn_duration ev \<le> 0"
    using assms(1) by (simp add: mult_nonneg_nonpos)
  then show False using assms(2,3) by simp
qed

lemma foldl_min_nonneg: "0 \<le> (v::real) \<Longrightarrow> \<forall>u\<in>set vs. 0 \<le> u \<Longrightarrow> 0 \<le> foldl min v vs"
  by (induction vs arbitrary: v) auto

lemma foldl_max_nonneg: "0 \<le> (v::real) \<Longrightarrow> 0 \<le> foldl max v vs"
  by (induction vs arbitrary: v) auto

lemma pd_mean_nonneg: "\<forall>u\<in>set col. 0 \<le> u \<Longrightarrow> 0 \<le> pd_mean col"
  by (simp add: pd_mean_def sum_list_nonneg)

lemma rotation_features_nonneg:
  assumes "\<forall>ev\<in>set evs. 0 \<le> auc ev \<and> aucXt ev = auc ev * turn_duration ev"
    and "rotation_features evs = (n, m, lo, hi)"
  shows "finite_nonneg m \<and> finite_nonneg lo \<and> finite_nonneg hi"
proof (cases "filter (\<lambda>ev. 2 < aucXt ev) evs")
  case Nil
  then show ?thesis using assms(2) by (auto simp: rotation_features_def finite_nonneg_def)
next
  case (Cons q qs)
  have pos: "\<forall>u\<in>set (map turn_duration (q # qs)). 0 \<le> u"
  proof
    fix u assume "u \<in> set (map turn_duration (q # qs))"
    then obtain ev where ev: "ev \<in> set (filter (\<lambda>ev. 2 < aucXt ev) evs)" "u = turn_duration ev"
      unfolding Cons[symmetric] by auto
    then have "0 < turn_duration ev"
      using assms(1) by (intro qualifying_duration_pos) auto
    then show "0 \<le> u" using ev by simp
  qed
  have "0 \<le> pd_mean (map turn_duration (q # qs))" using pos by (rule pd_mean_nonneg)
  moreover have "0 \<le> pd_min (map turn_duration (q # qs))"
    using pos by (simp add: foldl_min_nonneg)
  moreover have "0 \<le> pd_max (map turn_duration (q # qs))"
    using pos by (simp add: foldl_max_nonneg)
  ultimately show ?thesis
    using assms(2) Cons by (auto simp: rotation_features_def finite_nonneg_def Let_def)
qed

lemma window_loop_nonneg:
  "\<forall>w\<in>set (window_loop e orient ts filtered jPos). 0 \<le> heel_strikes w"
proof (induction e orient ts filtered jPos rule: window_loop.induct)
  case (1 e orient ts filtered jPos)
  show ?case
  proof (cases "jPos < length ts")
    case True
    then show ?thesis
      using 1[OF True refl refl refl refl refl]
      by (subst window_loop.simps) (simp add: Let_def)
  next
    case False
    then show ?thesis by (subst window_loop.simps) simp
  qed
qed

lemma mean_heel_strikes_nonneg:
  assumes "\<forall>w\<in>set obs. 0 \<le> heel_strikes w" "mean_heel_strikes_per_chunk obs = Inr v"
  shows "0 \<le> v"
proof -
  let ?k = "remove_long_zero_runs 5 obs"
  have "\<forall>u\<in>set (map heel_strikes ?k). 0 \<le> u"
    using assms(1) subseq_remove[of 5 obs] by (auto elim: list_emb_set)
  then have "0 \<le> pd_mean (map heel_strikes ?k)" by (rule pd_mean_nonneg)
  then show ?thesis
    using assms(2) by (auto simp: mean_heel_strikes_per_chunk_def subset_eq_remove Let_def split: if_splits)
qed

lemma steps_per_window_nonneg:
  "calculate_number_of_steps_per_window e (Frame ts) orient = Inr (Computed v) \<Longrightarrow> 0 \<le> v"
  by (auto simp: calculate_number_of_steps_per_window_def steps_per_window_frame_def
      split: sum.splits intro: mean_heel_strikes_nonneg[OF window_loop_nonneg])

lemma np_true_divide_pos: "0 < d \<Longrightarrow> finite_nonneg (np_true_divide n d)"
  by (simp add: np_true_divide_def finite_nonneg_def)

lemma bout_rates_ok:
  assumes "bout_rates e data orient g = Inr (w, nw)"
  shows "0 \<le> w \<and> (0 < bout_duration data g \<longrightarrow> finite_nonneg nw)"
proof -
  let ?rows = "map ov_row (slice data (hd g) (last g + 1))"
  from assms obtain s0 s1 t0 t1 where
    s: "first_item g = Inr s0" "last_item g = Inr s1"
    and w: "calculate_number_of_steps_per_window e
              (Frame (map ov_row (slice data s0 (s1 + 1)))) orient = Inr (Computed w)"
    and t: "last_item (map td (map ov_row (slice data s0 (s1 + 1)))) = Inr t1"
           "first_item (map td (map ov_row (slice data s0 (s1 + 1)))) = Inr t0"
    and nw: "nw = (case gp_heel_strikes e (t1 - t0) (map y_axis (map ov_row (slice data s0 (s1 + 1)))) of
                     None \<Rightarrow> Fin 0 | Some (n0, n1) \<Rightarrow> np_true_divide n0 (t1 - t0))"
    by (auto simp: bout_rates_def Let_def split: sum.splits outcome.splits)
  have s0: "s0 = hd g" and s1: "s1 = last g"
    using s by (auto simp: first_item_def last_item_def split: list.splits)
  have "t1 - t0 = bout_duration data g"
    using t unfolding s0 s1
    by (auto simp: bout_duration_def first_item_def last_item_def Let_def split: list.splits)
  then have bd: "t1 - t0 = bout_duration data g" .
  have "finite_nonneg nw" if "0 < bout_duration data g"
  proof (cases "gp_heel_strikes e (t1 - t0) (map y_axis (map ov_row (slice data s0 (s1 + 1))))")
    case None
    then show ?thesis unfolding nw by (simp add: finite_nonneg_def)
  next
    case (Some p)
    have "0 < t1 - t0" using that bd by simp
    then show ?thesis unfolding nw Some using np_true_divide_pos[of "t1 - t0"] by (cases p) simp
  qed
  then show ?thesis using steps_per_window_nonneg[OF w] by simp
qed

lemma bouts_loop_ok:
  "bouts_loop e data orient seqs = Inr rates \<Longrightarrow>
   list_all2 (\<lambda>g (w, nw). 0 \<le> w \<and> (0 < bout_duration data g \<longrightarrow> finite_nonneg nw)) seqs rates"
proof (induction seqs arbitrary: rates)
  case Nil
  then show ?case by simp
next
  case (Cons g seqs)
  then show ?case
    by (auto split: sum.splits dest: bout_rates_ok)
qed

lemma foldl_np_add_Fin:
  "\<forall>v\<in>set vs. finite_nonneg v \<Longrightarrow> 0 \<le> s \<Longrightarrow> \<exists>t\<ge>0. foldl np_add (Fin s) vs = Fin t"
proof (induction vs arbitrary: s)
  case Nil
  then show ?case by simp
next
  case (Cons v vs)
  from Cons.prems(1) obtain a where a: "v = Fin a" "0 \<le> a"
    by (cases v) (auto simp: finite_nonneg_def)
  have "\<exists>t\<ge>0. foldl np_add (Fin (s + a)) vs = Fin t"
    using Cons.prems a by (intro Cons.IH) auto
  then show ?case by (simp add: a)
qed

lemma np_mean_finite_nonneg:
  assumes "vs \<noteq> []" "\<forall>v\<in>set vs. finite_nonneg v"
  shows "finite_nonneg (np_mean vs)"
proof -
  obtain t where "0 \<le> t" "foldl np_add (Fin 0) vs = Fin t"
    using foldl_np_add_Fin[OF assms(2), of 0] by auto
  then show ?thesis using assms(1) by (simp add: np_mean_def finite_nonneg_def)
qed

lemma np_mean_Nil: "np_mean [] = NaN"
  by (simp add: np_mean_def)

text \<open>
  What holds of the six features. Whenever the pipeline returns a feature record for a
  recording: the mean, minimum and maximum turn duration are finite and non-negative (and
  the turn count is a natural number); if the merged timeline has at least one walking
  bout, the windowed mean step rate is finite and non-negative, and so is the unwindowed
  mean step rate provided every bout ends at a later \<^verbatim>\<open>td\<close> than it starts; if the
  timeline has no walking bout (no acceleration row, or every row turning), both mean
  step rates are NaN.
\<close>

theorem features_finite_nonneg:
  assumes "pipeline_frame e d orient = Inr fr"
  shows "\<exists>evs. calculate_rotation e (filter (\<lambda>r. sensorType r = ''rotationRate'') d) orient = Inr evs \<and>
     (let data = create_overlay_data (filter (\<lambda>r. sensorType r = ''userAcceleration'') d) evs;
          seqs = walking_seqs_of data
      in finite_nonneg (rotation_mean_duration fr) \<and>
         finite_nonneg (rotation_min_duration fr) \<and>
         finite_nonneg (rotation_max_duration fr) \<and>
         (seqs = [] \<longrightarrow> wchunk_mean_no_of_steps_per_secs fr = NaN \<and>
                        no_wchunk_mean_no_of_steps_per_secs fr = NaN) \<and>
         (seqs \<noteq> [] \<longrightarrow> finite_nonneg (wchunk_mean_no_of_steps_per_secs fr)) \<and>
         (seqs \<noteq> [] \<and> (\<forall>g\<in>set seqs. 0 < bout_duration data g) \<longrightarrow>
            finite_nonneg (no_wchunk_mean_no_of_steps_per_secs fr)))"
proof -
  let ?acc = "filter (\<lambda>r. sensorType r = ''userAcceleration'') d"
  from assms obtain evs rates n m lo hi where
    ev: "calculate_rotation e (filter (\<lambda>r. sensorType r = ''rotationRate'') d) orient = Inr evs"
    and bl: "bouts_loop e (create_overlay_data ?acc evs) orient
               (walking_seqs_of (create_overlay_data ?acc evs)) = Inr rates"
    and rf: "rotation_features evs = (n, m, lo, hi)"
    and fr: "fr = \<lparr>wchunk_mean_no_of_steps_per_secs = np_mean (map (Fin \<circ> fst) rates),
                   no_wchunk_mean_no_of_steps_per_secs = np_mean (map snd rates),
                   rotation_no_of_turns = n,
                   rotation_mean_duration = m,
                   rotation_min_duration = lo,
                   rotation_max_duration = hi\<rparr>"
    by (auto simp: pipeline_frame_def Let_def split: sum.splits prod.splits)
  let ?data = "create_overlay_data ?acc evs"
  let ?seqs = "walking_seqs_of ?data"
  have rot: "finite_nonneg m \<and> finite_nonneg lo \<and> finite_nonneg hi"
    using rotation_features_nonneg[OF calculate_rotation_events[OF ev] rf] .
  have la: "list_all2 (\<lambda>g (w, nw). 0 \<le> w \<and> (0 < bout_duration ?data g \<longrightarrow> finite_nonneg nw))
              ?seqs rates"
    using bouts_loop_ok[OF bl] .
  then have len: "length ?seqs = length rates" by (rule list_all2_lengthD)
  have empty: "?seqs = [] \<Longrightarrow> np_mean (map (Fin \<circ> fst) rates) = NaN \<and> np_mean (map snd rates) = NaN"
    using len by (simp add: np_mean_Nil)
  have each: "0 \<le> fst (rates ! i) \<and>
              (0 < bout_duration ?data (?seqs ! i) \<longrightarrow> finite_nonneg (snd (rates ! i)))"
    if "i < length rates" for i
    using list_all2_nthD2[OF la that] by (simp add: case_prod_unfold)
  have wn: "\<forall>v\<in>set (map (Fin \<circ> fst) rates). finite_nonneg v"
  proof
    fix v assume "v \<in> set (map (Fin \<circ> fst) rates)"
    then obtain i where "i < length rates" "v = Fin (fst (rates ! i))"
      by (auto simp: in_set_conv_nth)
    then show "finite_nonneg v" using each[of i] by (simp add: finite_nonneg_def)
  qed
  have w: "?seqs \<noteq> [] \<Longrightarrow> finite_nonneg (np_mean (map (Fin \<circ> fst) rates))"
    using len wn by (intro np_mean_finite_nonneg) auto
  have nwn: "\<forall>v\<in>set (map snd rates). finite_nonneg v"
    if pos: "\<forall>g\<in>set ?seqs. 0 < bout_duration ?data g"
  proof
    fix v assume "v \<in> set (map snd rates)"
    then obtain i where i: "i < length rates" "v = snd (rates ! i)"
      by (auto simp: in_set_conv_nth)
    then have "?seqs ! i \<in> set ?seqs" using len by simp
    then show "finite_nonneg v" using each[OF i(1)] pos i(2) by simp
  qed
  have nw: "?seqs \<noteq> [] \<Longrightarrow> \<forall>g\<in>set ?seqs. 0 < bout_duration ?data g \<Longrightarrow>
            finite_nonneg (np_mean (map snd rates))"
    using len nwn by (intro np_mean_finite_nonneg) auto
  show ?thesis
    using ev rot empty w nw unfolding fr Let_def by (intro exI[of _ evs]) simp
qed

theorem features_finite_nonneg_example:
  "pipeline_frame example_env
     [accel_row 0 1, accel_row 1 1, accel_row 2 1, accel_row 3 1, accel_row 4 1,
      rotation_row 0 3, rotation_row 1 3, rotation_row 2 (- 3), rotation_row 3 (- 3)] Orient_y
   = Inr \<lparr>wchunk_mean_no_of_steps_per_secs = Fin 0,
          no_wchunk_mean_no_of_steps_per_secs = Fin (3 / 2),
          rotation_no_of_turns = 1,
          rotation_mean_duration = Fin 2,
          rotation_min_duration = Fin 2,
          rotation_max_duration = Fin 2\<rparr> \<and>
   walking_seqs_of
     (create_overlay_data [accel_row 0 1, accel_row 1 1, accel_row 2 1, accel_row 3 1, accel_row 4 1]
        [\<lparr>turn_td = 1, auc = 3, turn_duration = 2, aucXt = 6\<rparr>]) = [[2, 3, 4]] \<and>
   bout_duration
     (create_overlay_data [accel_row 0 1, accel_row 1 1, accel_row 2 1, accel_row 3 1, accel_row 4 1]
        [\<lparr>turn_td = 1, auc = 3, turn_duration = 2, aucXt = 6\<rparr>]) [2, 3, 4] = 2 \<and>
   finite_nonneg (Fin 0) \<and> finite_nonneg (Fin (3 / 2)) \<and> finite_nonneg (Fin 2)"
proof -
  let ?fr = "\<lparr>wchunk_mean_no_of_steps_per_secs = Fin 0,
          no_wchunk_mean_no_of_steps_per_secs = Fin (3 / 2),
          rotation_no_of_turns = 1,
          rotation_mean_duration = Fin 2,
          rotation_min_duration = Fin 2,
          rotation_max_duration = Fin 2\<rparr>"
  have b: "bout_duration
     (create_overlay_data [accel_row 0 1, accel_row 1 1, accel_row 2 1, accel_row 3 1, accel_row 4 1]
        [\<lparr>turn_td = 1, auc = 3, turn_duration = 2, aucXt = 6\<rparr>]) [2, 3, 4] = 2"
    unfolding ex_overlay by (simp add: bout_duration_def slice_def accel_row_def)
  have s: "walking_seqs_of
     (create_overlay_data [accel_row 0 1, accel_row 1 1, accel_row 2 1, accel_row 3 1, accel_row 4 1]
        [\<lparr>turn_td = 1, auc = 3, turn_duration = 2, aucXt = 6\<rparr>]) = [[2, 3, 4]]"
    unfolding ex_overlay by (rule ex_seqs)
  from features_finite_nonneg[OF ex_pipeline_frame]
  have "finite_nonneg (rotation_mean_duration ?fr)" unfolding Let_def by blast
  then have r: "finite_nonneg (Fin 2)" by simp
  have f: "finite_nonneg (Fin 0)" "finite_nonneg (Fin (3 / 2))"
    by (simp_all add: finite_nonneg_def)
  show ?thesis using ex_pipeline_frame s b r f by (intro conjI)
qed

text \<open>A recording whose samples are all rotation samples with the signal 0 on the chosen
  axis has no turn event and an empty merged timeline, hence no walking bout. A filter
  from rest returns 0 on the signal 0 whatever its coefficients, so this holds in every
  environment.\<close>

lemma dot_zero_right: "\<forall>v\<in>set vs. v = 0 \<Longrightarrow> dot u vs = 0"
proof (induction vs arbitrary: u)
  case Nil
  then show ?case by (simp add: dot_def)
next
  case (Cons v vs)
  then show ?case by (cases u) (simp_all add: dot_def)
qed

lemma lfilter_from_zero:
  "\<forall>v\<in>set xs. v = 0 \<Longrightarrow> \<forall>v\<in>set xp. v = 0 \<Longrightarrow> \<forall>v\<in>set yp. v = 0 \<Longrightarrow>
   lfilter_from b a xp yp xs = replicate (length xs) 0"
proof (induction xs arbitrary: xp yp)
  case Nil
  then show ?case by simp
next
  case (Cons x xs)
  have y: "(case a of [] \<Rightarrow> 0 | a0 # ar \<Rightarrow> (dot b (x # xp) - dot ar yp) / a0) = 0"
    using Cons.prems by (cases a) (simp_all add: dot_zero_right)
  have "lfilter_from b a (x # xp) (0 # yp) xs = replicate (length xs) 0"
    using Cons.prems by (intro Cons.IH) auto
  then show ?case by (simp add: y Let_def)
qed

lemma filter_zero_signal:
  "\<forall>v\<in>set xs. v = 0 \<Longrightarrow> butter_lowpass_filter e xs sample_rate cutoff order = replicate (length xs) 0"
  by (simp add: butter_lowpass_filter_def lfilter_def lfilter_from_zero Let_def split: prod.split)

lemma np_diff_zero: "np_diff (replicate n (0::real)) = replicate (n - 1) 0"
proof (induction n)
  case 0
  then show ?case by simp
next
  case (Suc n)
  then show ?case by (cases n) simp_all
qed

lemma detect_zcr_zero: "detect_zcr (replicate n 0) = []"
  by (simp add: detect_zcr_def np_diff_zero np_where_def filter_empty_conv)

lemma rotation_only_zero_signal:
  assumes "\<forall>r\<in>set d. sensorType r = ''rotationRate'' \<and> column orient r = 0"
  shows "pipeline_frame e d orient =
           Inr \<lparr>wchunk_mean_no_of_steps_per_secs = NaN,
                no_wchunk_mean_no_of_steps_per_secs = NaN,
                rotation_no_of_turns = 0,
                rotation_mean_duration = Fin 0,
                rotation_min_duration = Fin 0,
                rotation_max_duration = Fin 0\<rparr>"
proof -
  have a: "filter (\<lambda>r. sensorType r = ''userAcceleration'') d = []"
    using assms by (auto simp: filter_empty_conv)
  have r: "filter (\<lambda>r. sensorType r = ''rotationRate'') d = d"
    using assms by (simp add: filter_id_conv)
  have f: "butter_lowpass_filter e (map (column orient) d) 100 2 2 = replicate (length d) 0"
    using assms filter_zero_signal[of "map (column orient) d" e 100 2 2] by simp
  have c: "calculate_rotation e d orient = Inr []"
    by (simp add: calculate_rotation_def assign_column_def f detect_zcr_zero)
  have o: "create_overlay_data [] [] = []"
    by (simp add: create_overlay_data_def pd_merge_left_def fillna_def)
  have w: "walking_seqs_of [] = []"
    by (simp add: walking_seqs_of_def separate_array_sequence_def np_where_def)
  show ?thesis
    unfolding pipeline_frame_def a r Let_def c sum.case o w
    by (simp add: rotation_features_def np_mean_def)
qed


text \<open>
  C7 asks that each of the six features be finite and non-negative for every valid stream
  with increasing \<^verbatim>\<open>td\<close>. The code does not give that: for the recording of two
  rotation samples at \<^verbatim>\<open>td\<close> 0 and 1 with signal 0 and no acceleration sample, the list of
  per-bout rates is empty and both mean step rates are its mean, NaN, while the rotation
  block gets its explicit zeros.
\<close>

theorem features_nan_counterexample:
  "sorted_wrt (<) (map td [rotation_row 0 0, rotation_row 1 0]) \<and>
   pipeline example_env (Frame [rotation_row 0 0, rotation_row 1 0]) Orient_y =
     Inr (Computed \<lparr>wchunk_mean_no_of_steps_per_secs = NaN,
                     no_wchunk_mean_no_of_steps_per_secs = NaN,
                     rotation_no_of_turns = 0,
                     rotation_mean_duration = Fin 0,
                     rotation_min_duration = Fin 0,
                     rotation_max_duration = Fin 0\<rparr>) \<and>
   \<not> finite_nonneg NaN"
proof -
  have "\<forall>r\<in>set [rotation_row 0 0, rotation_row 1 0]. sensorType r = ''rotationRate'' \<and> column Orient_y r = 0"
    by (simp add: rotation_row_def)
  then show ?thesis
    by (simp add: pipeline_def rotation_only_zero_signal finite_nonneg_def rotation_row_def
        del: column.simps)
qed


end
